theory Spec2Isabelle
  imports Main "HOL-Library.AList" "HOL-Library.Char_ord" "HOL-Library.List_Lexorder"
begin

section \<open>Python strings and dictionaries\<close>

text \<open>
  The schema texts of \<^verbatim>\<open>merge-schemas.py\<close> are Python strings. A string is modelled as a
  list of characters, each character standing for one code point below 256. A dictionary
  is an association list in insertion order: assigning to a present key keeps the key's
  position, assigning to a new key appends it, as a Python dict does.
\<close>

datatype py_error = IndexError | FileNotFoundError | NoneAsKey

type_synonym dict = "(string \<times> string) list"

definition isspace :: "char \<Rightarrow> bool" where
  \<comment> \<open>the code points below 256 that \<^verbatim>\<open>str.isspace\<close> accepts\<close>
  "isspace c = (c \<in> set [CHR 0x09, CHR 0x0A, CHR 0x0B, CHR 0x0C, CHR 0x0D,
                          CHR 0x1C, CHR 0x1D, CHR 0x1E, CHR 0x1F, CHR 0x20,
                          CHR 0x85, CHR 0xA0])"

definition strip :: "string \<Rightarrow> string" where
  \<comment> \<open>\<^verbatim>\<open>s.strip()\<close>\<close>
  "strip s = rev (dropWhile isspace (rev (dropWhile isspace s)))"

fun split_ws_from :: "string \<Rightarrow> string \<Rightarrow> string list" where
  \<comment> \<open>the scan of \<^verbatim>\<open>s.split()\<close>; \<open>cur\<close> is the token being read\<close>
  "split_ws_from cur [] = (if cur = [] then [] else [cur])"
| "split_ws_from cur (c # cs) =
     (if isspace c
      then (if cur = [] then split_ws_from [] cs else cur # split_ws_from [] cs)
      else split_ws_from (cur @ [c]) cs)"

definition split_ws :: "string \<Rightarrow> string list" where
  \<comment> \<open>\<^verbatim>\<open>s.split()\<close>: the maximal runs of non-whitespace characters\<close>
  "split_ws s = split_ws_from [] s"

definition item :: "'a list \<Rightarrow> nat \<Rightarrow> py_error + 'a" where
  \<comment> \<open>\<^verbatim>\<open>xs[i]\<close> for a non-negative index\<close>
  "item xs i = (if i < length xs then Inr (xs ! i) else Inl IndexError)"

fun split_nl :: "string \<Rightarrow> string list" where
  \<comment> \<open>\<^verbatim>\<open>s.split('\n')\<close>\<close>
  "split_nl [] = [[]]"
| "split_nl (c # cs) =
     (if c = CHR 0x0A then [] # split_nl cs
      else (case split_nl cs of [] \<Rightarrow> [[c]] | l # ls \<Rightarrow> (c # l) # ls))"

fun join_nl :: "string list \<Rightarrow> string" where
  \<comment> \<open>\<^verbatim>\<open>'\n'.join(xs)\<close>\<close>
  "join_nl [] = []"
| "join_nl [x] = x"
| "join_nl (x # y # ys) = x @ CHR 0x0A # join_nl (y # ys)"

definition startswith :: "string \<Rightarrow> string \<Rightarrow> bool" where
  "startswith s p = (take (length p) s = p)"

definition count :: "string \<Rightarrow> char \<Rightarrow> int" where
  \<comment> \<open>\<^verbatim>\<open>s.count(c)\<close> for a single character\<close>
  "count s c = int (count_list s c)"

definition brace_delta :: "string \<Rightarrow> int" where
  \<comment> \<open>\<^verbatim>\<open>line.count('{') - line.count('}')\<close>\<close>
  "brace_delta line = count line (CHR ''{'') - count line (CHR ''}'')"

definition sorted_keys :: "dict \<Rightarrow> string list" where
  \<comment> \<open>\<^verbatim>\<open>sorted(d.keys())\<close>: strings compare code point by code point\<close>
  "sorted_keys d = sort (map fst d)"

fun run_loop :: "('s \<Rightarrow> 'a \<Rightarrow> py_error + 's) \<Rightarrow> 'a list \<Rightarrow> 's \<Rightarrow> py_error + 's" where
  \<comment> \<open>a \<^verbatim>\<open>for\<close> loop whose body may raise\<close>
  "run_loop body [] s = Inr s"
| "run_loop body (x # xs) s =
     (case body s x of Inl e \<Rightarrow> Inl e | Inr s' \<Rightarrow> run_loop body xs s')"

section \<open>The block scanners\<close>

text \<open>
  The local variables of \<^verbatim>\<open>extract_models\<close>, in the order \<open>models\<close>, \<open>current_model\<close>,
  \<open>current_content\<close>, \<open>in_model\<close>, \<open>brace_count\<close>; \<^verbatim>\<open>extract_enums\<close> has the same five.
\<close>

type_synonym scan_state = "dict \<times> string option \<times> string list \<times> bool \<times> int"

definition flush :: "dict \<Rightarrow> string option \<Rightarrow> string list \<Rightarrow> dict" where
  \<comment> \<open>\<^verbatim>\<open>if current and current_content: blocks[current] = '\n'.join(current_content)\<close>;
      \<open>None\<close> and the empty string are false, and so is the empty list\<close>
  "flush blocks current current_content =
     (case current of
        None \<Rightarrow> blocks
      | Some name \<Rightarrow>
          if name \<noteq> [] \<and> current_content \<noteq> []
          then AList.update name (join_nl current_content) blocks else blocks)"

fun models_body :: "scan_state \<Rightarrow> string \<Rightarrow> py_error + scan_state" where
  \<comment> \<open>the body of the loop of \<^verbatim>\<open>extract_models\<close>. Where the source stores under
      \<open>current_model\<close> without a test, a \<open>None\<close> key is reported as \<open>NoneAsKey\<close>\<close>
  "models_body (models, current_model, current_content, in_model, brace_count) line =
     (if startswith (strip line) ''model '' then
        (case item (split_ws (strip line)) 1 of
           Inl e \<Rightarrow> Inl e
         | Inr name \<Rightarrow>
             Inr (flush models current_model current_content,
                  Some name, [line], True, brace_delta line))
      else if in_model then
        (let current_content = current_content @ [line];
             brace_count = brace_count + brace_delta line
         in if brace_count = 0 then
              (case current_model of
                 None \<Rightarrow> Inl NoneAsKey
               | Some name \<Rightarrow>
                   Inr (AList.update name (join_nl current_content) models,
                        None, [], False, brace_count))
            else Inr (models, current_model, current_content, in_model, brace_count))
      else Inr (models, current_model, current_content, in_model, brace_count))"

definition extract_models :: "string \<Rightarrow> py_error + dict" where
  "extract_models schema_content =
     (case run_loop models_body (split_nl schema_content) ([], None, [], False, 0) of
        Inl e \<Rightarrow> Inl e
      | Inr (models, current_model, current_content, in_model, brace_count) \<Rightarrow>
          Inr (flush models current_model current_content))"

fun enums_body :: "scan_state \<Rightarrow> string \<Rightarrow> py_error + scan_state" where
  \<comment> \<open>the body of the loop of \<^verbatim>\<open>extract_enums\<close>\<close>
  "enums_body (enums, current_enum, current_content, in_enum, brace_count) line =
     (if startswith (strip line) ''enum '' then
        (case item (split_ws (strip line)) 1 of
           Inl e \<Rightarrow> Inl e
         | Inr name \<Rightarrow>
             Inr (flush enums current_enum current_content,
                  Some name, [line], True, brace_delta line))
      else if in_enum then
        (let current_content = current_content @ [line];
             brace_count = brace_count + brace_delta line
         in if brace_count = 0 then
              (case current_enum of
                 None \<Rightarrow> Inl NoneAsKey
               | Some name \<Rightarrow>
                   Inr (AList.update name (join_nl current_content) enums,
                        None, [], False, brace_count))
            else Inr (enums, current_enum, current_content, in_enum, brace_count))
      else Inr (enums, current_enum, current_content, in_enum, brace_count))"

definition extract_enums :: "string \<Rightarrow> py_error + dict" where
  "extract_enums schema_content =
     (case run_loop enums_body (split_nl schema_content) ([], None, [], False, 0) of
        Inl e \<Rightarrow> Inl e
      | Inr (enums, current_enum, current_content, in_enum, brace_count) \<Rightarrow>
          Inr (flush enums current_enum current_content))"

text \<open>
  The scanner of \<^verbatim>\<open>extract_models\<close> with its keyword \<^verbatim>\<open>'model '\<close> made a parameter:
  the definition the two scanners are compared with.
\<close>

fun keyword_body :: "string \<Rightarrow> scan_state \<Rightarrow> string \<Rightarrow> py_error + scan_state" where
  "keyword_body kw (blocks, current, current_content, in_block, brace_count) line =
     (if startswith (strip line) kw then
        (case item (split_ws (strip line)) 1 of
           Inl e \<Rightarrow> Inl e
         | Inr name \<Rightarrow>
             Inr (flush blocks current current_content,
                  Some name, [line], True, brace_delta line))
      else if in_block then
        (let current_content = current_content @ [line];
             brace_count = brace_count + brace_delta line
         in if brace_count = 0 then
              (case current of
                 None \<Rightarrow> Inl NoneAsKey
               | Some name \<Rightarrow>
                   Inr (AList.update name (join_nl current_content) blocks,
                        None, [], False, brace_count))
            else Inr (blocks, current, current_content, in_block, brace_count))
      else Inr (blocks, current, current_content, in_block, brace_count))"

definition extract_with_keyword :: "string \<Rightarrow> string \<Rightarrow> py_error + dict" where
  "extract_with_keyword kw schema_content =
     (case run_loop (keyword_body kw) (split_nl schema_content) ([], None, [], False, 0) of
        Inl e \<Rightarrow> Inl e
      | Inr (blocks, current, current_content, in_block, brace_count) \<Rightarrow>
          Inr (flush blocks current current_content))"

section \<open>The merge\<close>

text \<open>
  What \<^verbatim>\<open>merge_schemas\<close> prints, one constructor for each \<^verbatim>\<open>print\<close> statement, with
  the values it interpolates.
\<close>

datatype event =
    Main_schema_has nat nat
  | Warning_not_found string
  | File_counts string nat nat
  | Added_model string
  | Skipped_duplicate_model string
  | Added_enum string
  | Skipped_duplicate_enum string
  | Consolidated_written string
  | Total nat nat

definition path_name :: "string \<Rightarrow> string" where
  \<comment> \<open>\<^verbatim>\<open>Path(p).name\<close> for a path that does not end in a slash: its last component\<close>
  "path_name p = rev (takeWhile (\<lambda>c. c \<noteq> CHR ''/'') (rev p))"

definition path_str :: "string \<Rightarrow> string" where
  \<comment> \<open>\<^verbatim>\<open>str(Path(p))\<close> for a relative path written with a leading \<^verbatim>\<open>./\<close> and no other
      redundant part: the leading \<^verbatim>\<open>./\<close> is dropped\<close>
  "path_str p = (if startswith p ''./'' then drop 2 p else p)"

definition main_schema_path :: string where
  "main_schema_path = ''./medical-analysis-platform/prisma/schema.prisma''"

definition additional_schemas :: "string list" where
  "additional_schemas =
     [''./prisma/schema-medical-standardization.prisma'',
      ''./prisma/schema-athenahealth-eclinicalworks.prisma'',
      ''./prisma/schema-hipaa-compliance.prisma'',
      ''./prisma/schema-hipaa-additional.prisma'',
      ''./prisma/schema-compliance-additions.prisma'']"

definition output_path :: string where
  "output_path = ''./prisma/schema-consolidated.prisma''"

definition is_block_start :: "string \<Rightarrow> bool" where
  \<comment> \<open>the test that ends the header\<close>
  "is_block_start line =
     (startswith (strip line) ''model '' \<or> startswith (strip line) ''enum '')"

definition header_lines :: "string \<Rightarrow> string list" where
  "header_lines main_content = takeWhile (\<lambda>line. \<not> is_block_start line) (split_nl main_content)"

fun add_models :: "dict \<Rightarrow> dict \<times> event list \<Rightarrow> dict \<times> event list" where
  \<comment> \<open>the loop over \<^verbatim>\<open>models.items()\<close>\<close>
  "add_models [] (all_models, out) = (all_models, out)"
| "add_models ((model_name, model_content) # items) (all_models, out) =
     (if map_of all_models model_name = None
      then add_models items (AList.update model_name model_content all_models,
                             out @ [Added_model model_name])
      else add_models items (all_models, out @ [Skipped_duplicate_model model_name]))"

fun add_enums :: "dict \<Rightarrow> dict \<times> event list \<Rightarrow> dict \<times> event list" where
  \<comment> \<open>the loop over \<^verbatim>\<open>enums.items()\<close>\<close>
  "add_enums [] (all_enums, out) = (all_enums, out)"
| "add_enums ((enum_name, enum_content) # items) (all_enums, out) =
     (if map_of all_enums enum_name = None
      then add_enums items (AList.update enum_name enum_content all_enums,
                            out @ [Added_enum enum_name])
      else add_enums items (all_enums, out @ [Skipped_duplicate_enum enum_name]))"

type_synonym merge_state = "dict \<times> dict \<times> event list"

fun merge_body :: "merge_state \<Rightarrow> string \<times> string option \<Rightarrow> py_error + merge_state" where
  \<comment> \<open>the body of the loop over \<open>additional_schemas\<close>; the second component is the
      content of the file at the path, \<open>None\<close> when the path does not exist\<close>
  "merge_body (all_models, all_enums, out) (schema_path, None) =
     Inr (all_models, all_enums, out @ [Warning_not_found schema_path])"
| "merge_body (all_models, all_enums, out) (schema_path, Some content) =
     (case extract_models content of
        Inl e \<Rightarrow> Inl e
      | Inr models \<Rightarrow>
          (case extract_enums content of
             Inl e \<Rightarrow> Inl e
           | Inr enums \<Rightarrow>
               (let out = out @ [File_counts (path_name schema_path) (length models) (length enums)];
                    (all_models, out) = add_models models (all_models, out);
                    (all_enums, out) = add_enums enums (all_enums, out)
                in Inr (all_models, all_enums, out))))"

definition banner :: string where
  "banner = ''// ============================================================================''"

definition section_entries :: "dict \<Rightarrow> string list" where
  \<comment> \<open>the loop over \<^verbatim>\<open>sorted(d.keys())\<close> that appends \<^verbatim>\<open>d[name]\<close> and an empty string;
      every name comes from the keys, so the lookup finds it\<close>
  "section_entries d =
     concat (map (\<lambda>name. case map_of d name of Some text \<Rightarrow> [text, []] | None \<Rightarrow> [])
                 (sorted_keys d))"

definition consolidated :: "string \<Rightarrow> dict \<Rightarrow> dict \<Rightarrow> string list" where
  "consolidated header all_enums all_models =
     [header, CHR 0x0A # banner, ''// ENUMS'', banner @ [CHR 0x0A]]
     @ section_entries all_enums
     @ [CHR 0x0A # banner, ''// MODELS'', banner @ [CHR 0x0A]]
     @ section_entries all_models"

record merge_result =
  written :: string  \<comment> \<open>the text written to \<open>output_path\<close>\<close>
  printed :: "event list"
  returned :: "nat \<times> nat"
  all_models_end :: dict  \<comment> \<open>the value of \<open>all_models\<close> when the function returns\<close>
  all_enums_end :: dict  \<comment> \<open>the value of \<open>all_enums\<close> when the function returns\<close>

definition merge_contents :: "string \<Rightarrow> (string \<times> string option) list \<Rightarrow> py_error + merge_result" where
  \<comment> \<open>\<^verbatim>\<open>merge_schemas\<close> from the content of the main schema and, for each additional
      path in order, the content of its file\<close>
  "merge_contents main_content additional =
     (let header = join_nl (header_lines main_content) in
      case extract_models main_content of
        Inl e \<Rightarrow> Inl e
      | Inr all_models \<Rightarrow>
          (case extract_enums main_content of
             Inl e \<Rightarrow> Inl e
           | Inr all_enums \<Rightarrow>
               (case run_loop merge_body additional
                       (all_models, all_enums,
                        [Main_schema_has (length all_models) (length all_enums)]) of
                  Inl e \<Rightarrow> Inl e
                | Inr (all_models, all_enums, out) \<Rightarrow>
                    Inr \<lparr> written = join_nl (consolidated header all_enums all_models),
                          printed = out @ [Consolidated_written (path_str output_path),
                                           Total (length all_models) (length all_enums)],
                          returned = (length all_models, length all_enums),
                          all_models_end = all_models,
                          all_enums_end = all_enums \<rparr>)))"

definition merge_schemas :: "(string \<Rightarrow> string option) \<Rightarrow> py_error + merge_result" where
  \<comment> \<open>the argument is the file system: the content of the file at each path\<close>
  "merge_schemas files =
     (case files main_schema_path of
        None \<Rightarrow> Inl FileNotFoundError
      | Some main_content \<Rightarrow>
          merge_contents main_content (map (\<lambda>p. (p, files p)) additional_schemas))"

section \<open>Notions for stating the properties\<close>

text \<open>
  The definitions below belong to the verification, not to the program. A keyword is a
  word followed by one space, as \<^verbatim>\<open>'model '\<close> and \<^verbatim>\<open>'enum '\<close> are; a line opens a
  block of a keyword when its stripped text starts with the keyword, which is the test
  of the scanners; the balance of some lines is the sum of their brace counts, the
  depth the scanner has reached after them.
\<close>

definition is_keyword :: "string \<Rightarrow> bool" where
  "is_keyword kw = (2 \<le> length kw \<and> last kw = CHR 0x20)"

definition opens :: "string \<Rightarrow> string \<Rightarrow> bool" where
  "opens kw line = startswith (strip line) kw"

definition balance :: "string list \<Rightarrow> int" where
  "balance ls = sum_list (map brace_delta ls)"

definition start_state :: scan_state where
  \<comment> \<open>the values of the five variables before the loop\<close>
  "start_state = ([], None, [], False, 0)"

text \<open>
  The lines of a block: the first opens the block and its second token is the name,
  no later line opens a block, and the depth is away from zero after every line from
  the second to the last but one. Such a run closed normally when it has a line after
  the opening line and ends at depth zero; it was cut off when it is the opening line
  alone or ends at another depth.
\<close>

definition block_span :: "string \<Rightarrow> string \<Rightarrow> string list \<Rightarrow> bool" where
  "block_span kw name ls =
     (ls \<noteq> [] \<and> opens kw (hd ls) \<and> item (split_ws (strip (hd ls))) 1 = Inr name
      \<and> (\<forall>l\<in>set (tl ls). \<not> opens kw l)
      \<and> (\<forall>k\<in>{2..<length ls}. balance (take k ls) \<noteq> 0))"

definition closed_normally :: "string list \<Rightarrow> bool" where
  "closed_normally ls = (2 \<le> length ls \<and> balance ls = 0)"

definition cut_off :: "string list \<Rightarrow> bool" where
  "cut_off ls = (length ls = 1 \<or> balance ls \<noteq> 0)"

text \<open>
  The invariant of the scan after the lines \<open>p\<close>: every stored entry is a block among
  \<open>p\<close> that closed normally or was cut off by an opening line, the names are distinct,
  and the block being read, if any, is the end of \<open>p\<close>.
\<close>

definition emitted_ok :: "string \<Rightarrow> string list \<Rightarrow> string \<times> string \<Rightarrow> bool" where
  "emitted_ok kw p e =
     (\<exists>pre ls post. p = pre @ ls @ post \<and> snd e = join_nl ls \<and> block_span kw (fst e) ls
        \<and> (closed_normally ls \<or> (post \<noteq> [] \<and> opens kw (hd post) \<and> cut_off ls)))"

definition scan_inv :: "string \<Rightarrow> string list \<Rightarrow> scan_state \<Rightarrow> bool" where
  "scan_inv kw p s =
     (case s of (blocks, current, current_content, in_block, brace_count) \<Rightarrow>
        (\<forall>e\<in>set blocks. emitted_ok kw p e) \<and> distinct (map fst blocks) \<and>
        (if in_block
         then \<exists>pre name. p = pre @ current_content \<and> current = Some name \<and> name \<noteq> []
                \<and> block_span kw name current_content
                \<and> brace_count = balance current_content \<and> cut_off current_content
         else current = None \<and> current_content = []))"

text \<open>
  The two loops that add the blocks of a document to the registries differ in the lines
  they print only; \<open>add_blocks\<close> is their common shape. A registry keeps another when
  it has every entry of it, and distinct names if the other has.
\<close>

fun add_blocks :: "(string \<Rightarrow> event) \<Rightarrow> (string \<Rightarrow> event) \<Rightarrow> dict \<Rightarrow> dict \<times> event list \<Rightarrow> dict \<times> event list" where
  "add_blocks added skipped [] (all_blocks, out) = (all_blocks, out)"
| "add_blocks added skipped ((name, content) # items) (all_blocks, out) =
     (if map_of all_blocks name = None
      then add_blocks added skipped items (AList.update name content all_blocks, out @ [added name])
      else add_blocks added skipped items (all_blocks, out @ [skipped name]))"

definition keeps :: "dict \<Rightarrow> dict \<Rightarrow> bool" where
  "keeps d d' = ((\<forall>A X. map_of d A = Some X \<longrightarrow> map_of d' A = Some X)
                 \<and> (distinct (map fst d) \<longrightarrow> distinct (map fst d')))"

text \<open>
  For merging a written text again: an entry of a registry is well formed when its text
  is a block that closed normally and none of its lines opens a block of the other
  keyword. The lines a section contributes to the written text are the lines of its
  blocks, an empty line after each; scanning them gives the registry back in the order
  of its names.
\<close>

definition well_formed_block :: "string \<Rightarrow> string \<Rightarrow> string \<times> string \<Rightarrow> bool" where
  "well_formed_block kw other e =
     (block_span kw (fst e) (split_nl (snd e)) \<and> closed_normally (split_nl (snd e))
      \<and> (\<forall>l\<in>set (split_nl (snd e)). \<not> opens other l))"

definition section_lines :: "dict \<Rightarrow> string list" where
  "section_lines d =
     concat (map (\<lambda>name. split_nl (the (map_of d name)) @ [[]]) (sorted_keys d))"

definition rescanned :: "dict \<Rightarrow> dict" where
  "rescanned d = map (\<lambda>name. (name, the (map_of d name))) (sorted_keys d)"

text \<open>
  For telling which document a registry entry comes from: the texts of the additional
  documents that exist, in the order of the loop, and the content that the first text
  of a list whose scan has the name holds under it. The merge reads the main schema
  first, so the list it is asked about starts with the main content.
\<close>
fun texts_present :: "(string \<times> string option) list \<Rightarrow> string list" where
  "texts_present [] = []"
| "texts_present ((path, None) # docs) = texts_present docs"
| "texts_present ((path, Some text) # docs) = text # texts_present docs"

fun first_seen :: "(string \<Rightarrow> py_error + dict) \<Rightarrow> string list \<Rightarrow> string \<Rightarrow> string option" where
  "first_seen extract [] name = None"
| "first_seen extract (text # texts) name =
     (case extract text of
        Inl e \<Rightarrow> first_seen extract texts name
      | Inr blocks \<Rightarrow>
          (case map_of blocks name of
             Some content \<Rightarrow> Some content
           | None \<Rightarrow> first_seen extract texts name))"

section \<open>Tokens of an opening line\<close>

lemma isspace_space [simp]: "isspace (CHR 0x20)"
  by (simp add: isspace_def)

lemma split_ws_from_nonempty:
  "cur \<noteq> [] \<or> (\<exists>c\<in>set xs. \<not> isspace c) \<Longrightarrow> 1 \<le> length (split_ws_from cur xs)"
  by (induction xs arbitrary: cur) auto

lemma split_ws_from_two:
  "isspace sp \<Longrightarrow> \<exists>c\<in>set ys. \<not> isspace c \<Longrightarrow> cur \<noteq> [] \<or> (\<exists>c\<in>set xs. \<not> isspace c)
   \<Longrightarrow> 2 \<le> length (split_ws_from cur (xs @ sp # ys))"
proof (induction xs arbitrary: cur)
  case Nil
  then have "1 \<le> length (split_ws_from [] ys)"
    using split_ws_from_nonempty [of "[]" ys] by blast
  with Nil show ?case by simp
next
  case (Cons x xs)
  show ?case
  proof (cases "isspace x")
    case False
    then show ?thesis using Cons.IH [of "cur @ [x]"] Cons.prems by simp
  next
    case True
    show ?thesis
    proof (cases "cur = []")
      case True
      with \<open>isspace x\<close> Cons.prems have "\<exists>c\<in>set xs. \<not> isspace c" by auto
      then show ?thesis using Cons.IH [of "[]"] Cons.prems True \<open>isspace x\<close> by simp
    next
      case False
      have "1 \<le> length (split_ws_from [] (xs @ sp # ys))"
        using split_ws_from_nonempty [of "[]" "xs @ sp # ys"] Cons.prems(2) by auto
      then show ?thesis using False \<open>isspace x\<close> by simp
    qed
  qed
qed

lemma split_ws_from_tokens:
  "t \<in> set (split_ws_from cur xs) \<Longrightarrow> t \<noteq> []"
  by (induction xs arbitrary: cur) (auto split: if_splits)

lemma strip_last: "strip s \<noteq> [] \<Longrightarrow> \<not> isspace (last (strip s))"
  unfolding strip_def by (simp add: last_rev hd_dropWhile)

lemma last_dropWhile: "dropWhile P xs \<noteq> [] \<Longrightarrow> last (dropWhile P xs) = last xs"
  by (induction xs) (auto split: if_splits)

lemma strip_hd: "strip s \<noteq> [] \<Longrightarrow> \<not> isspace (hd (strip s))"
proof -
  assume a: "strip s \<noteq> []"
  let ?d = "dropWhile isspace s"
  from a have d: "?d \<noteq> []" by (auto simp: strip_def dest: set_dropWhileD)
  from a have e: "dropWhile isspace (rev ?d) \<noteq> []" by (simp add: strip_def)
  have "hd (strip s) = last (dropWhile isspace (rev ?d))"
    using e by (simp add: strip_def hd_rev)
  also have "\<dots> = last (rev ?d)" using e by (rule last_dropWhile)
  also have "\<dots> = hd ?d" using d by (simp add: last_rev)
  finally show ?thesis using d by (simp add: hd_dropWhile)
qed

lemma opens_two_tokens:
  assumes "is_keyword kw" "opens kw line"
  shows "2 \<le> length (split_ws (strip line))"
proof -
  let ?s = "strip line"
  define w where "w = butlast kw"
  from assms(1) have "kw \<noteq> []" "last kw = CHR 0x20" "2 \<le> length kw"
    by (auto simp: is_keyword_def)
  then have kw: "kw = w @ [CHR 0x20]" and w: "w \<noteq> []"
    unfolding w_def using append_butlast_last_id [of kw] by (auto simp: butlast_conv_take)
  from assms(2) have "take (length kw) ?s = kw" by (simp add: opens_def startswith_def)
  then obtain rest where s: "?s = kw @ rest" by (metis append_take_drop_id)
  have ne: "?s \<noteq> []" using s kw by simp
  have "\<not> isspace (hd ?s)" using ne by (rule strip_hd)
  moreover have "hd ?s = hd w" using s kw w by simp
  ultimately have x: "\<exists>c\<in>set w. \<not> isspace c" using w by (metis hd_in_set)
  have l: "\<not> isspace (last ?s)" using ne by (rule strip_last)
  have r: "rest \<noteq> []"
  proof
    assume "rest = []"
    then have "last ?s = CHR 0x20" using s kw by simp
    with l show False by simp
  qed
  then have "last ?s = last rest" using s by simp
  with l r have y: "\<exists>c\<in>set rest. \<not> isspace c" by (metis last_in_set)
  have "2 \<le> length (split_ws_from [] (w @ CHR 0x20 # rest))"
    using split_ws_from_two [of "CHR 0x20" rest "[]" w] x y by simp
  then show ?thesis using s kw by (simp add: split_ws_def)
qed

lemma opens_item:
  assumes "is_keyword kw" "opens kw line"
  shows "\<exists>name. item (split_ws (strip line)) 1 = Inr name \<and> name \<noteq> []"
proof -
  have l: "2 \<le> length (split_ws (strip line))" using assms by (rule opens_two_tokens)
  then have "split_ws (strip line) ! 1 \<in> set (split_ws (strip line))" by simp
  then have "split_ws (strip line) ! 1 \<noteq> []"
    unfolding split_ws_def by (rule split_ws_from_tokens)
  with l show ?thesis by (simp add: item_def)
qed

lemma is_keyword_model [simp]: "is_keyword ''model ''" by (simp add: is_keyword_def)
lemma is_keyword_enum [simp]: "is_keyword ''enum ''" by (simp add: is_keyword_def)

section \<open>The two scanners are the keyword scanner\<close>

lemma models_body_keyword: "models_body s line = keyword_body ''model '' s line"
  by (cases s) simp

lemma enums_body_keyword: "enums_body s line = keyword_body ''enum '' s line"
  by (cases s) simp

lemma models_body_eq: "models_body = keyword_body ''model ''"
  by (intro ext) (rule models_body_keyword)

lemma enums_body_eq: "enums_body = keyword_body ''enum ''"
  by (intro ext) (rule enums_body_keyword)

lemma extract_models_keyword: "extract_models c = extract_with_keyword ''model '' c"
  by (simp add: extract_models_def extract_with_keyword_def models_body_eq)

lemma extract_enums_keyword: "extract_enums c = extract_with_keyword ''enum '' c"
  by (simp add: extract_enums_def extract_with_keyword_def enums_body_eq)

section \<open>The invariant of the scan\<close>

lemma run_loop_append:
  "run_loop body (xs @ ys) s =
     (case run_loop body xs s of Inl e \<Rightarrow> Inl e | Inr s' \<Rightarrow> run_loop body ys s')"
  by (induction xs arbitrary: s) (auto split: sum.splits)

lemma balance_simps [simp]:
  "balance [] = 0" "balance (l # ls) = brace_delta l + balance ls"
  "balance (xs @ ys) = balance xs + balance ys"
  by (simp_all add: balance_def)

lemma emitted_ok_extend:
  assumes "emitted_ok kw p e" shows "emitted_ok kw (p @ [line]) e"
proof -
  from assms obtain pre ls post where h: "p = pre @ ls @ post" "snd e = join_nl ls"
    "block_span kw (fst e) ls"
    "closed_normally ls \<or> (post \<noteq> [] \<and> opens kw (hd post) \<and> cut_off ls)"
    unfolding emitted_ok_def by blast
  have "p @ [line] = pre @ ls @ (post @ [line])" using h(1) by simp
  moreover have "closed_normally ls \<or> (post @ [line] \<noteq> [] \<and> opens kw (hd (post @ [line])) \<and> cut_off ls)"
    using h(4) by auto
  ultimately show ?thesis unfolding emitted_ok_def using h(2,3) by blast
qed

lemma emitted_ok_update:
  assumes "\<forall>e\<in>set blocks. emitted_ok kw p e" "emitted_ok kw p (name, raw)"
  shows "\<forall>e\<in>set (AList.update name raw blocks). emitted_ok kw p e"
proof -
  have "set (AList.update name raw blocks) \<subseteq> insert (name, raw) (set blocks)"
    by (induction blocks) auto
  with assms show ?thesis by auto
qed

lemma scan_inv_start: "scan_inv kw [] start_state"
  by (simp add: scan_inv_def start_state_def)

lemma block_span_single:
  "opens kw line \<Longrightarrow> item (split_ws (strip line)) 1 = Inr name \<Longrightarrow> block_span kw name [line]"
  by (simp add: block_span_def)

lemma block_span_snoc:
  assumes "block_span kw name cc" "cut_off cc" "\<not> opens kw line"
  shows "block_span kw name (cc @ [line])"
proof -
  from assms(1) have ne: "cc \<noteq> []" by (simp add: block_span_def)
  have a: "\<forall>l\<in>set (tl (cc @ [line])). \<not> opens kw l"
    using assms(1,3) ne by (auto simp: block_span_def)
  have b: "\<forall>k\<in>{2..<length (cc @ [line])}. balance (take k (cc @ [line])) \<noteq> 0"
  proof
    fix k assume k: "k \<in> {2..<length (cc @ [line])}"
    then have le: "k \<le> length cc" by simp
    show "balance (take k (cc @ [line])) \<noteq> 0"
    proof (cases "k = length cc")
      case True
      with k assms(2) have "balance cc \<noteq> 0" by (auto simp: cut_off_def)
      with True show ?thesis by simp
    next
      case False
      with le k have "k \<in> {2..<length cc}" by simp
      with assms(1) have "balance (take k cc) \<noteq> 0" by (simp add: block_span_def)
      with le show ?thesis by simp
    qed
  qed
  from assms(1) ne a b show ?thesis by (simp add: block_span_def)
qed

lemma scan_inv_step:
  assumes kw: "is_keyword kw" and inv: "scan_inv kw p s"
  shows "\<exists>s'. keyword_body kw s line = Inr s' \<and> scan_inv kw (p @ [line]) s'"
proof -
  obtain blocks current cc ib bc where s: "s = (blocks, current, cc, ib, bc)"
    by (cases s) auto
  from inv s have ok: "\<forall>e\<in>set blocks. emitted_ok kw p e" and dist: "distinct (map fst blocks)"
    by (auto simp: scan_inv_def)
  have ok': "\<forall>e\<in>set blocks. emitted_ok kw (p @ [line]) e"
    using ok emitted_ok_extend by blast
  show ?thesis
  proof (cases "opens kw line")
    case True
    from opens_item [OF kw True] obtain name
      where name: "item (split_ws (strip line)) 1 = Inr name" "name \<noteq> []" by blast
    let ?s' = "(flush blocks current cc, Some name, [line], True, brace_delta line)"
    have step: "keyword_body kw s line = Inr ?s'"
      using True name s by (simp add: opens_def)
    have fl: "(\<forall>e\<in>set (flush blocks current cc). emitted_ok kw (p @ [line]) e)
              \<and> distinct (map fst (flush blocks current cc))"
    proof (cases ib)
      case False
      with inv s have "current = None" by (simp add: scan_inv_def)
      then show ?thesis using ok' dist by (simp add: flush_def)
    next
      case True
      with inv s obtain pre n where c: "p = pre @ cc" "current = Some n" "n \<noteq> []"
        "block_span kw n cc" "cut_off cc"
        by (auto simp: scan_inv_def)
      from c(4) have ne: "cc \<noteq> []" by (simp add: block_span_def)
      have "p @ [line] = pre @ cc @ [line]" using c(1) by simp
      then have "emitted_ok kw (p @ [line]) (n, join_nl cc)"
        unfolding emitted_ok_def using c(4,5) \<open>opens kw line\<close>
        by (intro exI [of _ pre] exI [of _ cc] exI [of _ "[line]"]) simp
      with ok' have "\<forall>e\<in>set (AList.update n (join_nl cc) blocks). emitted_ok kw (p @ [line]) e"
        by (rule emitted_ok_update)
      then show ?thesis using c(2,3) ne dist by (simp add: flush_def distinct_update)
    qed
    have cur: "block_span kw name [line]" using True name(1) by (rule block_span_single)
    have "scan_inv kw (p @ [line]) ?s'"
      unfolding scan_inv_def using fl cur name(2) by (auto simp: cut_off_def)
    with step show ?thesis by blast
  next
    case nopen: False
    show ?thesis
    proof (cases ib)
      case False
      with inv s have "current = None" "cc = []" by (auto simp: scan_inv_def)
      then have "scan_inv kw (p @ [line]) s"
        using s False ok' dist by (simp add: scan_inv_def)
      moreover have "keyword_body kw s line = Inr s"
        using s False nopen by (simp add: opens_def)
      ultimately show ?thesis by blast
    next
      case True
      with inv s obtain pre n where c: "p = pre @ cc" "current = Some n" "n \<noteq> []"
        "block_span kw n cc" "bc = balance cc" "cut_off cc"
        by (auto simp: scan_inv_def)
      from c(4) have ne: "cc \<noteq> []" by (simp add: block_span_def)
      have span: "block_span kw n (cc @ [line])" using c(4,6) nopen by (rule block_span_snoc)
      have p': "p @ [line] = pre @ (cc @ [line]) @ []" using c(1) by simp
      show ?thesis
      proof (cases "bc + brace_delta line = 0")
        case z: True
        let ?s' = "(AList.update n (join_nl (cc @ [line])) blocks, None, [], False, bc + brace_delta line)"
        have step: "keyword_body kw s line = Inr ?s'"
          using s True nopen z c(2) by (simp add: opens_def)
        have "closed_normally (cc @ [line])"
          using z c(5) ne by (cases cc) (auto simp: closed_normally_def)
        with p' span have "emitted_ok kw (p @ [line]) (n, join_nl (cc @ [line]))"
          unfolding emitted_ok_def
          by (intro exI [of _ pre] exI [of _ "cc @ [line]"] exI [of _ "[]"]) simp
        with ok' have "\<forall>e\<in>set (AList.update n (join_nl (cc @ [line])) blocks).
                          emitted_ok kw (p @ [line]) e"
          by (rule emitted_ok_update)
        then have "scan_inv kw (p @ [line]) ?s'"
          using dist by (simp add: scan_inv_def distinct_update)
        with step show ?thesis by blast
      next
        case nz: False
        let ?s' = "(blocks, current, cc @ [line], ib, bc + brace_delta line)"
        have step: "keyword_body kw s line = Inr ?s'"
          using s True nopen nz by (simp add: opens_def Let_def)
        have "cut_off (cc @ [line])" using nz c(5) by (simp add: cut_off_def)
        then have "scan_inv kw (p @ [line]) ?s'"
          unfolding scan_inv_def using ok' dist True c span
          by (auto intro: exI [of _ pre])
        with step show ?thesis by blast
      qed
    qed
  qed
qed

lemma scan_inv_loop:
  assumes "is_keyword kw"
  shows "scan_inv kw p s \<Longrightarrow>
     \<exists>s'. run_loop (keyword_body kw) lines s = Inr s' \<and> scan_inv kw (p @ lines) s'"
proof (induction lines arbitrary: p s)
  case Nil
  then show ?case by simp
next
  case (Cons line lines)
  from scan_inv_step [OF assms Cons.prems, of line] obtain s1
    where s1: "keyword_body kw s line = Inr s1" "scan_inv kw (p @ [line]) s1" by blast
  from Cons.IH [OF s1(2)] obtain s' where
    "run_loop (keyword_body kw) lines s1 = Inr s'" "scan_inv kw ((p @ [line]) @ lines) s'"
    by blast
  with s1(1) show ?case by simp
qed

section \<open>Runs of lines\<close>

lemma continue_block:
  "\<forall>l\<in>set body. \<not> opens kw l \<Longrightarrow> \<forall>k\<in>{1..length body}. bc + balance (take k body) \<noteq> 0 \<Longrightarrow>
   run_loop (keyword_body kw) body (blocks, Some n, cc, True, bc)
     = Inr (blocks, Some n, cc @ body, True, bc + balance body)"
proof (induction body arbitrary: cc bc)
  case Nil
  then show ?case by simp
next
  case (Cons l body)
  have nz: "bc + brace_delta l \<noteq> 0" using Cons.prems(2) by (auto dest: bspec [of _ _ 1])
  have rest: "\<forall>k\<in>{1..length body}. (bc + brace_delta l) + balance (take k body) \<noteq> 0"
  proof
    fix k assume "k \<in> {1..length body}"
    then have "Suc k \<in> {1..length (l # body)}" by simp
    with Cons.prems(2) have "bc + balance (take (Suc k) (l # body)) \<noteq> 0" by blast
    then show "(bc + brace_delta l) + balance (take k body) \<noteq> 0" by (simp add: add.assoc)
  qed
  have "run_loop (keyword_body kw) body (blocks, Some n, cc @ [l], True, bc + brace_delta l)
          = Inr (blocks, Some n, (cc @ [l]) @ body, True, (bc + brace_delta l) + balance body)"
    using Cons.prems(1) rest by (intro Cons.IH) auto
  then show ?case using Cons.prems(1) nz by (simp add: opens_def add.assoc)
qed

lemma open_block:
  "opens kw line \<Longrightarrow> item (split_ws (strip line)) 1 = Inr name \<Longrightarrow>
   keyword_body kw (blocks, current, cc, ib, bc) line
     = Inr (flush blocks current cc, Some name, [line], True, brace_delta line)"
  by (simp add: opens_def)

lemma block_cut_off:
  assumes "opens kw line" "item (split_ws (strip line)) 1 = Inr name"
    and "\<forall>l\<in>set body. \<not> opens kw l"
    and "\<forall>k\<in>{1..length body}. balance (line # take k body) \<noteq> 0"
  shows "run_loop (keyword_body kw) (line # body) (blocks, current, cc, ib, bc)
     = Inr (flush blocks current cc, Some name, line # body, True, balance (line # body))"
proof -
  have "\<forall>k\<in>{1..length body}. brace_delta line + balance (take k body) \<noteq> 0"
    using assms(4) by simp
  with assms(3) have "run_loop (keyword_body kw) body
       (flush blocks current cc, Some name, [line], True, brace_delta line)
     = Inr (flush blocks current cc, Some name, [line] @ body, True, brace_delta line + balance body)"
    by (rule continue_block)
  then show ?thesis using open_block [OF assms(1,2)] by simp
qed

lemma block_closed:
  assumes "opens kw line" "item (split_ws (strip line)) 1 = Inr name"
    and "body \<noteq> []" "\<forall>l\<in>set body. \<not> opens kw l"
    and "\<forall>k\<in>{1..<length body}. balance (line # take k body) \<noteq> 0"
    and "balance (line # body) = 0"
  shows "run_loop (keyword_body kw) (line # body) (blocks, current, cc, ib, bc)
     = Inr (AList.update name (join_nl (line # body)) (flush blocks current cc), None, [], False, 0)"
proof -
  from assms(3) obtain body' z where b: "body = body' @ [z]" by (metis rev_exhaust)
  have 1: "\<forall>l\<in>set body'. \<not> opens kw l" using assms(4) b by simp
  have 2: "\<forall>k\<in>{1..length body'}. balance (line # take k body') \<noteq> 0"
  proof
    fix k assume k: "k \<in> {1..length body'}"
    then have "k \<in> {1..<length body}" using b by simp
    with assms(5) have "balance (line # take k body) \<noteq> 0" by blast
    with k b show "balance (line # take k body') \<noteq> 0" by simp
  qed
  have "run_loop (keyword_body kw) (line # body') (blocks, current, cc, ib, bc)
     = Inr (flush blocks current cc, Some name, line # body', True, balance (line # body'))"
    using assms(1,2) 1 2 by (rule block_cut_off)
  moreover have "\<not> opens kw z" using assms(4) b by simp
  moreover have "balance (line # body') + brace_delta z = 0" using assms(6) b by simp
  ultimately have "run_loop (keyword_body kw) ((line # body') @ [z]) (blocks, current, cc, ib, bc)
     = Inr (AList.update name (join_nl ((line # body') @ [z])) (flush blocks current cc), None, [], False, 0)"
    unfolding run_loop_append by (simp add: opens_def)
  then show ?thesis using b by simp
qed

lemma brace_delta_append: "brace_delta (xs @ ys) = brace_delta xs + brace_delta ys"
  by (simp add: brace_delta_def count_def)

lemma brace_delta_newline: "brace_delta (CHR 0x0A # ys) = brace_delta ys"
  by (simp add: brace_delta_def count_def)

lemma brace_delta_join_nl: "brace_delta (join_nl ls) = balance ls"
  by (induction ls rule: join_nl.induct)
     (simp_all add: brace_delta_append brace_delta_newline, simp add: brace_delta_def count_def)

section \<open>What the scans return\<close>

lemmas eval_defs = startswith_def strip_def isspace_def split_ws_def item_def
  brace_delta_def count_def opens_def flush_def start_state_def

lemma scan_total:
  assumes "is_keyword kw"
  shows "\<exists>s. run_loop (keyword_body kw) lines start_state = Inr s \<and> scan_inv kw lines s"
  using scan_inv_loop [OF assms scan_inv_start, of lines] by simp

lemma extract_with_keyword_total:
  assumes "is_keyword kw"
  shows "\<exists>d. extract_with_keyword kw c = Inr d"
proof -
  from scan_total [OF assms] obtain s
    where "run_loop (keyword_body kw) (split_nl c) start_state = Inr s" by blast
  then show ?thesis
    by (cases s) (simp add: extract_with_keyword_def start_state_def)
qed

lemma extract_models_total: "\<exists>d. extract_models c = Inr d"
  by (simp add: extract_models_keyword extract_with_keyword_total)

lemma extract_enums_total: "\<exists>d. extract_enums c = Inr d"
  by (simp add: extract_enums_keyword extract_with_keyword_total)

lemma extract_cut_off:
  assumes kw: "is_keyword kw"
    and doc: "split_nl doc = pre @ line # rest"
    and op: "opens kw line"
    and no: "\<forall>l\<in>set rest. \<not> opens kw l"
    and nz: "\<forall>k\<in>{1..length rest}. balance (line # take k rest) \<noteq> 0"
  shows "\<exists>name d. item (split_ws (strip line)) 1 = Inr name \<and> extract_with_keyword kw doc = Inr d
           \<and> map_of d name = Some (join_nl (line # rest))"
proof -
  from opens_item [OF kw op] obtain name
    where name: "item (split_ws (strip line)) 1 = Inr name" "name \<noteq> []" by blast
  from scan_total [OF kw] obtain s
    where s: "run_loop (keyword_body kw) pre start_state = Inr s" by blast
  obtain blocks current cc ib bc where t: "s = (blocks, current, cc, ib, bc)"
    by (cases s) auto
  have "run_loop (keyword_body kw) (line # rest) s
     = Inr (flush blocks current cc, Some name, line # rest, True, balance (line # rest))"
    unfolding t using op name(1) no nz by (rule block_cut_off)
  with s have "run_loop (keyword_body kw) (split_nl doc) start_state
     = Inr (flush blocks current cc, Some name, line # rest, True, balance (line # rest))"
    by (simp add: doc run_loop_append)
  then have "extract_with_keyword kw doc
     = Inr (AList.update name (join_nl (line # rest)) (flush blocks current cc))"
    using name(2) by (simp add: extract_with_keyword_def start_state_def flush_def)
  with name(1) show ?thesis by (simp add: update_conv')
qed

lemma keyword_block_closed:
  assumes kw: "is_keyword kw"
    and pre: "run_loop (keyword_body kw) pre start_state = Inr (blocks, current, cc, ib, bc)"
    and op: "opens kw line"
    and body: "body \<noteq> []" "\<forall>l\<in>set body. \<not> opens kw l"
      "\<forall>k\<in>{1..<length body}. balance (line # take k body) \<noteq> 0"
      "balance (line # body) = 0"
  shows "\<exists>name. item (split_ws (strip line)) 1 = Inr name
         \<and> run_loop (keyword_body kw) (pre @ line # body) start_state
             = Inr (AList.update name (join_nl (line # body)) (flush blocks current cc),
                    None, [], False, 0)"
proof -
  from opens_item [OF kw op] obtain name
    where name: "item (split_ws (strip line)) 1 = Inr name" by blast
  have "run_loop (keyword_body kw) (line # body) (blocks, current, cc, ib, bc)
     = Inr (AList.update name (join_nl (line # body)) (flush blocks current cc), None, [], False, 0)"
    using op name body by (rule block_closed)
  with pre name show ?thesis by (simp add: run_loop_append)
qed

lemma set_update_subset: "set (AList.update k v al) \<subseteq> insert (k, v) (set al)"
  by (induction al) auto

lemma extract_entries:
  assumes kw: "is_keyword kw" and ex: "extract_with_keyword kw doc = Inr blocks"
    and e: "e \<in> set blocks"
  shows "\<exists>pre ls post. split_nl doc = pre @ ls @ post \<and> snd e = join_nl ls
           \<and> block_span kw (fst e) ls
           \<and> (closed_normally ls \<or> (post = [] \<or> opens kw (hd post)) \<and> cut_off ls)"
proof -
  from scan_total [OF kw] obtain s
    where s: "run_loop (keyword_body kw) (split_nl doc) start_state = Inr s"
      and inv: "scan_inv kw (split_nl doc) s" by blast
  obtain b cur cc ib bc where t: "s = (b, cur, cc, ib, bc)" by (cases s) auto
  from ex s t have blocks: "blocks = flush b cur cc"
    by (simp add: extract_with_keyword_def start_state_def)
  have old: ?thesis if "e \<in> set b"
  proof -
    from inv t that have "emitted_ok kw (split_nl doc) e" by (simp add: scan_inv_def)
    then show ?thesis unfolding emitted_ok_def by blast
  qed
  show ?thesis
  proof (cases ib)
    case False
    with inv t have "cur = None" by (simp add: scan_inv_def)
    with blocks e have "e \<in> set b" by (simp add: flush_def)
    then show ?thesis by (rule old)
  next
    case True
    with inv t obtain pre n where c: "split_nl doc = pre @ cc" "cur = Some n" "n \<noteq> []"
      "block_span kw n cc" "cut_off cc"
      by (auto simp: scan_inv_def)
    from c(4) have "cc \<noteq> []" by (simp add: block_span_def)
    with blocks c(2,3) have "blocks = AList.update n (join_nl cc) b" by (simp add: flush_def)
    with e set_update_subset [of n "join_nl cc" b] have "e = (n, join_nl cc) \<or> e \<in> set b"
      by auto
    then show ?thesis
    proof
      assume "e \<in> set b" then show ?thesis by (rule old)
    next
      assume "e = (n, join_nl cc)"
      moreover have "split_nl doc = pre @ cc @ []" using c(1) by simp
      ultimately show ?thesis using c(4,5) by (intro exI [of _ pre] exI [of _ cc] exI [of _ "[]"]) simp
    qed
  qed
qed

lemma keyword_block_reopened:
  assumes kw: "is_keyword kw"
    and pre: "run_loop (keyword_body kw) pre start_state = Inr (blocks, current, cc, ib, bc)"
    and op1: "opens kw line1"
    and mid: "\<forall>l\<in>set mid. \<not> opens kw l"
      "\<forall>k\<in>{1..length mid}. balance (line1 # take k mid) \<noteq> 0"
    and op2: "opens kw line2"
  shows "\<exists>name1 name2. item (split_ws (strip line1)) 1 = Inr name1
         \<and> item (split_ws (strip line2)) 1 = Inr name2
         \<and> run_loop (keyword_body kw) (pre @ line1 # mid @ [line2]) start_state
             = Inr (AList.update name1 (join_nl (line1 # mid)) (flush blocks current cc),
                    Some name2, [line2], True, brace_delta line2)"
proof -
  from opens_item [OF kw op1] obtain name1
    where n1: "item (split_ws (strip line1)) 1 = Inr name1" "name1 \<noteq> []" by blast
  from opens_item [OF kw op2] obtain name2
    where n2: "item (split_ws (strip line2)) 1 = Inr name2" by blast
  have "run_loop (keyword_body kw) (line1 # mid) (blocks, current, cc, ib, bc)
     = Inr (flush blocks current cc, Some name1, line1 # mid, True, balance (line1 # mid))"
    using op1 n1(1) mid by (rule block_cut_off)
  moreover have "keyword_body kw
       (flush blocks current cc, Some name1, line1 # mid, True, balance (line1 # mid)) line2
     = Inr (flush (flush blocks current cc) (Some name1) (line1 # mid),
            Some name2, [line2], True, brace_delta line2)"
    using op2 n2 by (rule open_block)
  ultimately have "run_loop (keyword_body kw) ((line1 # mid) @ [line2]) (blocks, current, cc, ib, bc)
     = Inr (AList.update name1 (join_nl (line1 # mid)) (flush blocks current cc),
            Some name2, [line2], True, brace_delta line2)"
    unfolding run_loop_append using n1(2) by (simp add: flush_def)
  with pre n1(1) n2 show ?thesis by (simp add: run_loop_append)
qed

lemma extract_with_keyword_distinct:
  assumes kw: "is_keyword kw" and ex: "extract_with_keyword kw doc = Inr blocks"
  shows "distinct (map fst blocks)"
proof -
  from scan_total [OF kw] obtain s
    where s: "run_loop (keyword_body kw) (split_nl doc) start_state = Inr s"
      and inv: "scan_inv kw (split_nl doc) s" by blast
  obtain b cur cc ib bc where t: "s = (b, cur, cc, ib, bc)" by (cases s) auto
  from ex s t have "blocks = flush b cur cc"
    by (simp add: extract_with_keyword_def start_state_def)
  moreover from inv t have "distinct (map fst b)" by (simp add: scan_inv_def)
  ultimately show ?thesis by (simp add: flush_def distinct_update split: option.splits)
qed

lemma extract_models_distinct: "extract_models doc = Inr blocks \<Longrightarrow> distinct (map fst blocks)"
  using extract_with_keyword_distinct [OF is_keyword_model] by (simp add: extract_models_keyword)

lemma extract_enums_distinct: "extract_enums doc = Inr blocks \<Longrightarrow> distinct (map fst blocks)"
  using extract_with_keyword_distinct [OF is_keyword_enum] by (simp add: extract_enums_keyword)

section \<open>The merge loop\<close>

lemma add_models_blocks:
  "add_models items s = add_blocks Added_model Skipped_duplicate_model items s"
  by (induction items s rule: add_models.induct) auto

lemma add_enums_blocks:
  "add_enums items s = add_blocks Added_enum Skipped_duplicate_enum items s"
  by (induction items s rule: add_enums.induct) auto

lemma add_blocks_props:
  "\<exists>all' evs. add_blocks added skipped items (all_blocks, out) = (all', out @ evs)
     \<and> length evs = length items
     \<and> (\<forall>A X. map_of all_blocks A = Some X \<longrightarrow>
           map_of all' A = Some X \<and> (A \<in> fst ` set items \<longrightarrow> skipped A \<in> set evs))
     \<and> (distinct (map fst all_blocks) \<longrightarrow> distinct (map fst all'))
     \<and> (\<forall>A. map_of all_blocks A = None \<longrightarrow> A \<in> fst ` set items \<longrightarrow> added A \<in> set evs)"
proof (induction items arbitrary: all_blocks out)
  case Nil
  then show ?case by simp
next
  case (Cons it items)
  obtain name content where it: "it = (name, content)" by (cases it)
  show ?case
  proof (cases "map_of all_blocks name = None")
    case True
    from Cons.IH [of "AList.update name content all_blocks" "out @ [added name]"]
    obtain all' evs where h:
      "add_blocks added skipped items (AList.update name content all_blocks, out @ [added name])
         = (all', (out @ [added name]) @ evs)"
      "length evs = length items"
      "\<forall>A X. map_of (AList.update name content all_blocks) A = Some X \<longrightarrow>
           map_of all' A = Some X \<and> (A \<in> fst ` set items \<longrightarrow> skipped A \<in> set evs)"
      "distinct (map fst (AList.update name content all_blocks)) \<longrightarrow> distinct (map fst all')"
      "\<forall>A. map_of (AList.update name content all_blocks) A = None \<longrightarrow> A \<in> fst ` set items
           \<longrightarrow> added A \<in> set evs"
      by (elim exE conjE)
    have keep: "\<forall>A X. map_of all_blocks A = Some X \<longrightarrow>
        map_of all' A = Some X \<and> (A \<in> fst ` set (it # items) \<longrightarrow> skipped A \<in> set (added name # evs))"
    proof (intro allI impI)
      fix A X assume a: "map_of all_blocks A = Some X"
      with True have "A \<noteq> name" by auto
      with a have "map_of (AList.update name content all_blocks) A = Some X"
        by (simp add: update_conv')
      with h(3) \<open>A \<noteq> name\<close>
      show "map_of all' A = Some X \<and> (A \<in> fst ` set (it # items) \<longrightarrow> skipped A \<in> set (added name # evs))"
        by (auto simp: it)
    qed
    have new: "\<forall>A. map_of all_blocks A = None \<longrightarrow> A \<in> fst ` set (it # items)
        \<longrightarrow> added A \<in> set (added name # evs)"
    proof (intro allI impI)
      fix A assume a: "map_of all_blocks A = None" and b: "A \<in> fst ` set (it # items)"
      show "added A \<in> set (added name # evs)"
      proof (cases "A = name")
        case True
        then show ?thesis by simp
      next
        case False
        with a have "map_of (AList.update name content all_blocks) A = None"
          by (simp add: update_conv')
        moreover from b False have "A \<in> fst ` set items" by (auto simp: it)
        ultimately show ?thesis using h(5) by simp
      qed
    qed
    have eq: "add_blocks added skipped (it # items) (all_blocks, out) = (all', out @ (added name # evs))"
      using h(1) True by (simp add: it)
    have len: "length (added name # evs) = length (it # items)" using h(2) by simp
    have dist: "distinct (map fst all_blocks) \<longrightarrow> distinct (map fst all')"
      using h(4) by (simp add: distinct_update)
    show ?thesis
      by (intro exI [of _ all'] exI [of _ "added name # evs"] conjI eq len keep dist new)
  next
    case False
    from Cons.IH [of all_blocks "out @ [skipped name]"]
    obtain all' evs where h:
      "add_blocks added skipped items (all_blocks, out @ [skipped name])
         = (all', (out @ [skipped name]) @ evs)"
      "length evs = length items"
      "\<forall>A X. map_of all_blocks A = Some X \<longrightarrow>
           map_of all' A = Some X \<and> (A \<in> fst ` set items \<longrightarrow> skipped A \<in> set evs)"
      "distinct (map fst all_blocks) \<longrightarrow> distinct (map fst all')"
      "\<forall>A. map_of all_blocks A = None \<longrightarrow> A \<in> fst ` set items \<longrightarrow> added A \<in> set evs"
      by (elim exE conjE)
    have eq: "add_blocks added skipped (it # items) (all_blocks, out) = (all', out @ (skipped name # evs))"
      using h(1) False by (auto simp: it)
    have len: "length (skipped name # evs) = length (it # items)" using h(2) by simp
    have keep: "\<forall>A X. map_of all_blocks A = Some X \<longrightarrow>
           map_of all' A = Some X \<and> (A \<in> fst ` set (it # items) \<longrightarrow> skipped A \<in> set (skipped name # evs))"
      using h(3) by (auto simp: it)
    have new: "\<forall>A. map_of all_blocks A = None \<longrightarrow> A \<in> fst ` set (it # items)
        \<longrightarrow> added A \<in> set (skipped name # evs)"
      using h(5) False by (auto simp: it)
    show ?thesis
      by (intro exI [of _ all'] exI [of _ "skipped name # evs"] conjI eq len keep h(4) new)
  qed
qed

lemma add_blocks_lookup:
  "map_of (fst (add_blocks added skipped items (all_blocks, out))) A
     = (case map_of all_blocks A of Some X \<Rightarrow> Some X | None \<Rightarrow> map_of items A)"
proof (induction items arbitrary: all_blocks out)
  case Nil
  then show ?case by (simp split: option.splits)
next
  case (Cons it items)
  obtain name content where it: "it = (name, content)" by (cases it)
  show ?case
  proof (cases "map_of all_blocks name = None")
    case True
    have "map_of (fst (add_blocks added skipped (it # items) (all_blocks, out))) A
        = map_of (fst (add_blocks added skipped items
                         (AList.update name content all_blocks, out @ [added name]))) A"
      using True by (simp add: it)
    also have "\<dots> = (case map_of (AList.update name content all_blocks) A of
                        Some X \<Rightarrow> Some X | None \<Rightarrow> map_of items A)"
      by (rule Cons.IH)
    also have "\<dots> = (case map_of all_blocks A of Some X \<Rightarrow> Some X | None \<Rightarrow> map_of (it # items) A)"
      using True by (cases "A = name") (auto simp: update_conv' it split: option.splits)
    finally show ?thesis .
  next
    case False
    then obtain Z where Z: "map_of all_blocks name = Some Z" by auto
    have "map_of (fst (add_blocks added skipped (it # items) (all_blocks, out))) A
        = map_of (fst (add_blocks added skipped items (all_blocks, out @ [skipped name]))) A"
      using Z by (simp add: it)
    also have "\<dots> = (case map_of all_blocks A of Some X \<Rightarrow> Some X | None \<Rightarrow> map_of items A)"
      by (rule Cons.IH)
    also have "\<dots> = (case map_of all_blocks A of Some X \<Rightarrow> Some X | None \<Rightarrow> map_of (it # items) A)"
      using Z by (cases "A = name") (auto simp: it split: option.splits)
    finally show ?thesis .
  qed
qed

lemma keeps_refl [simp]: "keeps d d"
  by (simp add: keeps_def)

lemma keeps_trans: "keeps d d' \<Longrightarrow> keeps d' d'' \<Longrightarrow> keeps d d''"
  by (simp add: keeps_def)

lemma keepsD: "keeps d d' \<Longrightarrow> map_of d A = Some X \<Longrightarrow> map_of d' A = Some X"
  by (simp add: keeps_def)

lemma merge_body_found:
  assumes sm: "extract_models content = Inr sm" and se: "extract_enums content = Inr se"
  shows "\<exists>am' ae' evs. merge_body (am, ae, out) (path, Some content)
            = Inr (am', ae', out @ File_counts (path_name path) (length sm) (length se) # evs)
         \<and> length evs = length sm + length se
         \<and> keeps am am' \<and> keeps ae ae'
         \<and> (\<forall>A X. map_of am A = Some X \<longrightarrow> A \<in> fst ` set sm \<longrightarrow> Skipped_duplicate_model A \<in> set evs)
         \<and> (\<forall>A X. map_of ae A = Some X \<longrightarrow> A \<in> fst ` set se \<longrightarrow> Skipped_duplicate_enum A \<in> set evs)
         \<and> (\<forall>A. map_of am A = None \<longrightarrow> A \<in> fst ` set sm \<longrightarrow> Added_model A \<in> set evs)
         \<and> (\<forall>A. map_of ae A = None \<longrightarrow> A \<in> fst ` set se \<longrightarrow> Added_enum A \<in> set evs)"
proof -
  let ?out1 = "out @ [File_counts (path_name path) (length sm) (length se)]"
  from add_blocks_props [of Added_model Skipped_duplicate_model sm am ?out1]
  obtain am' evm where m: "add_models sm (am, ?out1) = (am', ?out1 @ evm)"
    "length evm = length sm"
    "\<forall>A X. map_of am A = Some X \<longrightarrow>
        map_of am' A = Some X \<and> (A \<in> fst ` set sm \<longrightarrow> Skipped_duplicate_model A \<in> set evm)"
    "distinct (map fst am) \<longrightarrow> distinct (map fst am')"
    "\<forall>A. map_of am A = None \<longrightarrow> A \<in> fst ` set sm \<longrightarrow> Added_model A \<in> set evm"
    unfolding add_models_blocks by (elim exE conjE)
  from add_blocks_props [of Added_enum Skipped_duplicate_enum se ae "?out1 @ evm"]
  obtain ae' eve where e: "add_enums se (ae, ?out1 @ evm) = (ae', (?out1 @ evm) @ eve)"
    "length eve = length se"
    "\<forall>A X. map_of ae A = Some X \<longrightarrow>
        map_of ae' A = Some X \<and> (A \<in> fst ` set se \<longrightarrow> Skipped_duplicate_enum A \<in> set eve)"
    "distinct (map fst ae) \<longrightarrow> distinct (map fst ae')"
    "\<forall>A. map_of ae A = None \<longrightarrow> A \<in> fst ` set se \<longrightarrow> Added_enum A \<in> set eve"
    unfolding add_enums_blocks by (elim exE conjE)
  have a: "merge_body (am, ae, out) (path, Some content)
          = Inr (am', ae', out @ File_counts (path_name path) (length sm) (length se) # (evm @ eve))"
    using sm se m(1) e(1) by simp
  have b: "length (evm @ eve) = length sm + length se" using m(2) e(2) by simp
  have c: "keeps am am'" using m(3,4) by (simp add: keeps_def)
  have d: "keeps ae ae'" using e(3,4) by (simp add: keeps_def)
  have f: "\<forall>A X. map_of am A = Some X \<longrightarrow> A \<in> fst ` set sm \<longrightarrow> Skipped_duplicate_model A \<in> set (evm @ eve)"
    using m(3) by simp
  have g: "\<forall>A X. map_of ae A = Some X \<longrightarrow> A \<in> fst ` set se \<longrightarrow> Skipped_duplicate_enum A \<in> set (evm @ eve)"
    using e(3) by simp
  have f': "\<forall>A. map_of am A = None \<longrightarrow> A \<in> fst ` set sm \<longrightarrow> Added_model A \<in> set (evm @ eve)"
    using m(5) by simp
  have g': "\<forall>A. map_of ae A = None \<longrightarrow> A \<in> fst ` set se \<longrightarrow> Added_enum A \<in> set (evm @ eve)"
    using e(5) by simp
  show ?thesis
    by (intro exI [of _ am'] exI [of _ ae'] exI [of _ "evm @ eve"] conjI a b c d f g f' g')
qed

lemma merge_body_keeps:
  "\<exists>am' ae' evs. merge_body (am, ae, out) d = Inr (am', ae', out @ evs)
     \<and> keeps am am' \<and> keeps ae ae'"
proof (cases d)
  case (Pair path c)
  show ?thesis
  proof (cases c)
    case None
    have "merge_body (am, ae, out) (path, None) = Inr (am, ae, out @ [Warning_not_found path])"
      by simp
    then show ?thesis unfolding Pair None
      by (intro exI [of _ am] exI [of _ ae] exI [of _ "[Warning_not_found path]"]) simp
  next
    case (Some content)
    obtain sm where sm: "extract_models content = Inr sm"
      using extract_models_total [of content] by (elim exE)
    obtain se where se: "extract_enums content = Inr se"
      using extract_enums_total [of content] by (elim exE)
    from merge_body_found [OF sm se, of am ae out path] obtain am' ae' evs
      where h: "merge_body (am, ae, out) (path, Some content)
            = Inr (am', ae', out @ File_counts (path_name path) (length sm) (length se) # evs)"
        "keeps am am'" "keeps ae ae'" by (elim exE conjE)
    show ?thesis unfolding Pair Some
      by (intro exI [of _ am'] exI [of _ ae']
            exI [of _ "File_counts (path_name path) (length sm) (length se) # evs"] conjI h)
  qed
qed

lemma merge_loop_keeps:
  "\<exists>am' ae' evs. run_loop merge_body ds (am, ae, out) = Inr (am', ae', out @ evs)
     \<and> keeps am am' \<and> keeps ae ae'"
proof (induction ds arbitrary: am ae out)
  case Nil
  then show ?case by simp
next
  case (Cons d ds)
  from merge_body_keeps [of am ae out d] obtain am1 ae1 ev1
    where 1: "merge_body (am, ae, out) d = Inr (am1, ae1, out @ ev1)"
      "keeps am am1" "keeps ae ae1" by blast
  from Cons.IH [of am1 ae1 "out @ ev1"] obtain am2 ae2 ev2
    where 2: "run_loop merge_body ds (am1, ae1, out @ ev1) = Inr (am2, ae2, (out @ ev1) @ ev2)"
      "keeps am1 am2" "keeps ae1 ae2" by blast
  have a: "run_loop merge_body (d # ds) (am, ae, out) = Inr (am2, ae2, out @ (ev1 @ ev2))"
    using 1(1) 2(1) by simp
  have b: "keeps am am2" using 1(2) 2(2) by (rule keeps_trans)
  have c: "keeps ae ae2" using 1(3) 2(3) by (rule keeps_trans)
  show ?case by (intro exI [of _ am2] exI [of _ ae2] exI [of _ "ev1 @ ev2"] conjI a b c)
qed

lemma merge_loop_found:
  assumes before: "run_loop merge_body before s0 = Inr (am, ae, out)"
    and sm: "extract_models content = Inr sm" and se: "extract_enums content = Inr se"
  shows "\<exists>am' ae' evs out2.
           run_loop merge_body (before @ (path, Some content) # after) s0
             = Inr (am', ae', out @ File_counts (path_name path) (length sm) (length se) # evs @ out2)
         \<and> length evs = length sm + length se
         \<and> keeps am am' \<and> keeps ae ae'
         \<and> (\<forall>A X. map_of am A = Some X \<longrightarrow> A \<in> fst ` set sm \<longrightarrow> Skipped_duplicate_model A \<in> set evs)
         \<and> (\<forall>A X. map_of ae A = Some X \<longrightarrow> A \<in> fst ` set se \<longrightarrow> Skipped_duplicate_enum A \<in> set evs)
         \<and> (\<forall>A. map_of am A = None \<longrightarrow> A \<in> fst ` set sm \<longrightarrow> Added_model A \<in> set evs)
         \<and> (\<forall>A. map_of ae A = None \<longrightarrow> A \<in> fst ` set se \<longrightarrow> Added_enum A \<in> set evs)"
proof -
  from merge_body_found [OF sm se, of am ae out path] obtain am1 ae1 evs
    where 1: "merge_body (am, ae, out) (path, Some content)
            = Inr (am1, ae1, out @ File_counts (path_name path) (length sm) (length se) # evs)"
      "length evs = length sm + length se" "keeps am am1" "keeps ae ae1"
      "\<forall>A X. map_of am A = Some X \<longrightarrow> A \<in> fst ` set sm \<longrightarrow> Skipped_duplicate_model A \<in> set evs"
      "\<forall>A X. map_of ae A = Some X \<longrightarrow> A \<in> fst ` set se \<longrightarrow> Skipped_duplicate_enum A \<in> set evs"
      "\<forall>A. map_of am A = None \<longrightarrow> A \<in> fst ` set sm \<longrightarrow> Added_model A \<in> set evs"
      "\<forall>A. map_of ae A = None \<longrightarrow> A \<in> fst ` set se \<longrightarrow> Added_enum A \<in> set evs"
    by (elim exE conjE)
  let ?out1 = "out @ File_counts (path_name path) (length sm) (length se) # evs"
  from merge_loop_keeps [of after am1 ae1 ?out1] obtain am2 ae2 out2
    where 2: "run_loop merge_body after (am1, ae1, ?out1) = Inr (am2, ae2, ?out1 @ out2)"
      "keeps am1 am2" "keeps ae1 ae2" by (elim exE conjE)
  have a: "run_loop merge_body (before @ (path, Some content) # after) s0
          = Inr (am2, ae2, out @ File_counts (path_name path) (length sm) (length se) # evs @ out2)"
    using before 1(1) 2(1) by (simp add: run_loop_append)
  have b: "keeps am am2" using 1(3) 2(2) by (rule keeps_trans)
  have c: "keeps ae ae2" using 1(4) 2(3) by (rule keeps_trans)
  show ?thesis
    by (intro exI [of _ am2] exI [of _ ae2] exI [of _ evs] exI [of _ out2] conjI a b c 1(2,5,6,7,8))
qed

lemma merge_contents_unfold:
  assumes "extract_models main_content = Inr pm" "extract_enums main_content = Inr pe"
    and "run_loop merge_body additional (pm, pe, [Main_schema_has (length pm) (length pe)])
           = Inr (am, ae, out)"
  shows "merge_contents main_content additional =
     Inr \<lparr> written = join_nl (consolidated (join_nl (header_lines main_content)) ae am),
           printed = out @ [Consolidated_written (path_str output_path), Total (length am) (length ae)],
           returned = (length am, length ae),
           all_models_end = am, all_enums_end = ae \<rparr>"
  using assms by (simp add: merge_contents_def)

lemma merge_contents_total: "\<exists>r. merge_contents main_content additional = Inr r"
proof -
  obtain pm pe where p: "extract_models main_content = Inr pm" "extract_enums main_content = Inr pe"
    using extract_models_total [of main_content] extract_enums_total [of main_content]
    by (elim exE)
  from merge_loop_keeps [of additional pm pe "[Main_schema_has (length pm) (length pe)]"]
  obtain am ae out where
    "run_loop merge_body additional (pm, pe, [Main_schema_has (length pm) (length pe)]) = Inr (am, ae, out)"
    by (elim exE conjE)
  from merge_contents_unfold [OF p this] show ?thesis by blast
qed

lemma merge_schemas_returns:
  "files main_schema_path = Some main_content \<Longrightarrow>
   merge_schemas files = merge_contents main_content (map (\<lambda>p. (p, files p)) additional_schemas)
   \<and> (\<exists>r. merge_schemas files = Inr r)"
  using merge_contents_total [of main_content "map (\<lambda>p. (p, files p)) additional_schemas"]
  by (simp add: merge_schemas_def)

lemma merge_schemas_no_main:
  "files main_schema_path = None \<Longrightarrow> merge_schemas files = Inl FileNotFoundError"
  by (simp add: merge_schemas_def)

section \<open>The written text\<close>

text \<open>
  The order of names is the order of Python strings: upper case before lower case, a
  proper prefix before its extensions.
\<close>

lemma order_of_names:
  "''Order'' < ''User''" "''User'' < ''order''" "''User'' < ''UserRole''" "\<not> ''a'' < ''B''"
  by simp_all

lemma sorted_keys_strict: "distinct (map fst d) \<Longrightarrow> sorted_wrt (<) (sorted_keys d)"
  by (simp add: sorted_keys_def strict_sorted_iff)

lemma section_entries_the:
  "section_entries d = concat (map (\<lambda>name. [the (map_of d name), []]) (sorted_keys d))"
proof -
  have "map_of d name \<noteq> None" if "name \<in> set (sorted_keys d)" for name
    using that by (simp add: sorted_keys_def map_of_eq_None_iff)
  then have "map (\<lambda>name. case map_of d name of Some text \<Rightarrow> [text, []] | None \<Rightarrow> []) (sorted_keys d)
           = map (\<lambda>name. [the (map_of d name), []]) (sorted_keys d)"
    by (intro map_cong refl) (auto split: option.splits)
  then show ?thesis unfolding section_entries_def by (rule arg_cong)
qed

lemma section_entries_member:
  assumes "map_of d A = Some X" shows "X \<in> set (section_entries d)"
proof -
  from assms have "A \<in> set (sorted_keys d)"
    by (auto simp: sorted_keys_def dest: map_of_SomeD intro: rev_image_eqI)
  with assms show ?thesis unfolding section_entries_the by force
qed

lemma section_entries_texts:
  "\<exists>texts. map (map_of d) (sorted_keys d) = map Some texts
     \<and> section_entries d = concat (map (\<lambda>text. [text, []]) texts)"
proof -
  let ?texts = "map (\<lambda>name. the (map_of d name)) (sorted_keys d)"
  have "map_of d name \<noteq> None" if "name \<in> set (sorted_keys d)" for name
    using that by (simp add: sorted_keys_def map_of_eq_None_iff)
  then have a: "map (map_of d) (sorted_keys d) = map Some ?texts"
    by (auto simp: comp_def)
  have b: "section_entries d = concat (map (\<lambda>text. [text, []]) ?texts)"
    by (simp add: section_entries_the comp_def)
  from a b show ?thesis by (intro exI [of _ ?texts] conjI)
qed

lemma join_nl_contains: "X \<in> set xs \<Longrightarrow> \<exists>u v. join_nl xs = u @ X @ v"
proof (induction xs rule: join_nl.induct)
  case 1
  then show ?case by simp
next
  case (2 x)
  then have "join_nl [x] = [] @ X @ []" by simp
  then show ?case by blast
next
  case (3 x y ys)
  show ?case
  proof (cases "X = x")
    case True
    then have "join_nl (x # y # ys) = [] @ X @ (CHR 0x0A # join_nl (y # ys))" by simp
    then show ?thesis by blast
  next
    case False
    with 3 obtain u v where "join_nl (y # ys) = u @ X @ v" by auto
    then have "join_nl (x # y # ys) = (x @ CHR 0x0A # u) @ X @ v" by simp
    then show ?thesis by blast
  qed
qed

lemma written_contains:
  assumes "map_of am A = Some X \<or> map_of ae A = Some X"
  shows "\<exists>u v. join_nl (consolidated h ae am) = u @ X @ v"
proof -
  from assms have "X \<in> set (consolidated h ae am)"
    by (auto simp: consolidated_def dest: section_entries_member)
  then show ?thesis by (rule join_nl_contains)
qed

lemma merge_contents_found:
  assumes pm: "extract_models main_content = Inr pm" and pe: "extract_enums main_content = Inr pe"
    and before: "run_loop merge_body before (pm, pe, [Main_schema_has (length pm) (length pe)])
                   = Inr (am, ae, out)"
    and sm: "extract_models content = Inr sm" and se: "extract_enums content = Inr se"
  shows "\<exists>r evs out2. merge_contents main_content (before @ (path, Some content) # after) = Inr r
         \<and> written r = join_nl (consolidated (join_nl (header_lines main_content))
                                   (all_enums_end r) (all_models_end r))
         \<and> printed r = out @ File_counts (path_name path) (length sm) (length se) # evs @ out2
         \<and> length evs = length sm + length se
         \<and> keeps am (all_models_end r) \<and> keeps ae (all_enums_end r)
         \<and> (\<forall>A X. map_of am A = Some X \<longrightarrow> A \<in> fst ` set sm \<longrightarrow> Skipped_duplicate_model A \<in> set evs)
         \<and> (\<forall>A X. map_of ae A = Some X \<longrightarrow> A \<in> fst ` set se \<longrightarrow> Skipped_duplicate_enum A \<in> set evs)
         \<and> (\<forall>A. map_of am A = None \<longrightarrow> A \<in> fst ` set sm \<longrightarrow> Added_model A \<in> set evs)
         \<and> (\<forall>A. map_of ae A = None \<longrightarrow> A \<in> fst ` set se \<longrightarrow> Added_enum A \<in> set evs)"
proof -
  from merge_loop_found [OF before sm se, of path after] obtain am' ae' evs out2
    where h: "run_loop merge_body (before @ (path, Some content) # after)
                (pm, pe, [Main_schema_has (length pm) (length pe)])
             = Inr (am', ae', out @ File_counts (path_name path) (length sm) (length se) # evs @ out2)"
      "length evs = length sm + length se" "keeps am am'" "keeps ae ae'"
      "\<forall>A X. map_of am A = Some X \<longrightarrow> A \<in> fst ` set sm \<longrightarrow> Skipped_duplicate_model A \<in> set evs"
      "\<forall>A X. map_of ae A = Some X \<longrightarrow> A \<in> fst ` set se \<longrightarrow> Skipped_duplicate_enum A \<in> set evs"
      "\<forall>A. map_of am A = None \<longrightarrow> A \<in> fst ` set sm \<longrightarrow> Added_model A \<in> set evs"
      "\<forall>A. map_of ae A = None \<longrightarrow> A \<in> fst ` set se \<longrightarrow> Added_enum A \<in> set evs"
    by (elim exE conjE)
  let ?r = "\<lparr> written = join_nl (consolidated (join_nl (header_lines main_content)) ae' am'),
           printed = (out @ File_counts (path_name path) (length sm) (length se) # evs @ out2)
                     @ [Consolidated_written (path_str output_path), Total (length am') (length ae')],
           returned = (length am', length ae'),
           all_models_end = am', all_enums_end = ae' \<rparr>"
  have a: "merge_contents main_content (before @ (path, Some content) # after) = Inr ?r"
    using pm pe h(1) by (rule merge_contents_unfold)
  show ?thesis
    by (intro exI [of _ ?r] exI [of _ evs]
          exI [of _ "out2 @ [Consolidated_written (path_str output_path), Total (length am') (length ae')]"]
          conjI a) (simp_all add: h)
qed

lemma merge_contents_state:
  assumes "merge_contents main_content additional = Inr r"
  shows "\<exists>pm pe out. extract_models main_content = Inr pm \<and> extract_enums main_content = Inr pe
           \<and> run_loop merge_body additional (pm, pe, [Main_schema_has (length pm) (length pe)])
               = Inr (all_models_end r, all_enums_end r, out)
           \<and> keeps pm (all_models_end r) \<and> keeps pe (all_enums_end r)"
proof -
  obtain pm where pm: "extract_models main_content = Inr pm"
    using extract_models_total [of main_content] by (elim exE)
  obtain pe where pe: "extract_enums main_content = Inr pe"
    using extract_enums_total [of main_content] by (elim exE)
  from merge_loop_keeps [of additional pm pe "[Main_schema_has (length pm) (length pe)]"]
  obtain am ae evs where l:
    "run_loop merge_body additional (pm, pe, [Main_schema_has (length pm) (length pe)])
       = Inr (am, ae, [Main_schema_has (length pm) (length pe)] @ evs)"
    "keeps pm am" "keeps pe ae"
    by (elim exE conjE)
  from merge_contents_unfold [OF pm pe l(1)] assms
  have "all_models_end r = am" "all_enums_end r = ae" by auto
  with pm pe l show ?thesis by blast
qed

lemma merge_registries_distinct:
  assumes "merge_contents main_content additional = Inr r"
  shows "distinct (map fst (all_models_end r))" "distinct (map fst (all_enums_end r))"
proof -
  from merge_contents_state [OF assms] obtain pm pe
    where h: "extract_models main_content = Inr pm" "extract_enums main_content = Inr pe"
      "keeps pm (all_models_end r)" "keeps pe (all_enums_end r)"
    by (elim exE conjE)
  from h(1,3) show "distinct (map fst (all_models_end r))"
    by (simp add: keeps_def extract_models_distinct)
  from h(2,4) show "distinct (map fst (all_enums_end r))"
    by (simp add: keeps_def extract_enums_distinct)
qed

lemma map_of_key: "map_of d A = Some Y \<Longrightarrow> A \<in> fst ` set d"
  by (auto dest: map_of_SomeD intro: rev_image_eqI)

lemma merge_skips_duplicate:
  assumes kind: "(extract, registry, skipped) \<in>
       {(extract_models, all_models_end, Skipped_duplicate_model),
        (extract_enums, all_enums_end, Skipped_duplicate_enum)}"
    and rb: "merge_contents main_content before = Inr rb"
    and X: "map_of (registry rb) A = Some X"
    and sb: "extract content = Inr blocks" and Y: "map_of blocks A = Some Y"
  shows "\<exists>r nm ne evs out1 out2.
           merge_contents main_content (before @ (path, Some content) # after) = Inr r
         \<and> map_of (registry r) A = Some X
         \<and> written r = join_nl (consolidated (join_nl (header_lines main_content))
                                   (all_enums_end r) (all_models_end r))
         \<and> printed r = out1 @ File_counts (path_name path) nm ne # evs @ out2
         \<and> length evs = nm + ne
         \<and> skipped A \<in> set evs"
proof -
  from merge_contents_state [OF rb] obtain pm pe out
    where p: "extract_models main_content = Inr pm" "extract_enums main_content = Inr pe"
      "run_loop merge_body before (pm, pe, [Main_schema_has (length pm) (length pe)])
         = Inr (all_models_end rb, all_enums_end rb, out)"
    by (elim exE conjE)
  obtain sm where sm: "extract_models content = Inr sm"
    using extract_models_total [of content] by (elim exE)
  obtain se where se: "extract_enums content = Inr se"
    using extract_enums_total [of content] by (elim exE)
  from merge_contents_found [OF p sm se, of path after] obtain r evs out2
    where h: "merge_contents main_content (before @ (path, Some content) # after) = Inr r"
      "written r = join_nl (consolidated (join_nl (header_lines main_content))
                                   (all_enums_end r) (all_models_end r))"
      "printed r = out @ File_counts (path_name path) (length sm) (length se) # evs @ out2"
      "length evs = length sm + length se"
      "keeps (all_models_end rb) (all_models_end r)" "keeps (all_enums_end rb) (all_enums_end r)"
      "\<forall>A X. map_of (all_models_end rb) A = Some X \<longrightarrow> A \<in> fst ` set sm
          \<longrightarrow> Skipped_duplicate_model A \<in> set evs"
      "\<forall>A X. map_of (all_enums_end rb) A = Some X \<longrightarrow> A \<in> fst ` set se
          \<longrightarrow> Skipped_duplicate_enum A \<in> set evs"
    by (elim exE conjE)
  have key: "A \<in> fst ` set blocks" using Y by (rule map_of_key)
  have "map_of (registry r) A = Some X \<and> skipped A \<in> set evs"
  proof -
    from kind consider
      "extract = extract_models" "registry = all_models_end" "skipped = Skipped_duplicate_model"
      | "extract = extract_enums" "registry = all_enums_end" "skipped = Skipped_duplicate_enum"
      by auto
    then show ?thesis
    proof cases
      case 1
      with sb sm have "blocks = sm" by simp
      with 1 X key h(5,7) show ?thesis by (auto dest: keepsD)
    next
      case 2
      with sb se have "blocks = se" by simp
      with 2 X key h(6,8) show ?thesis by (auto dest: keepsD)
    qed
  qed
  then show ?thesis using h(1-4)
    by (intro exI [of _ r] exI [of _ "length sm"] exI [of _ "length se"] exI [of _ evs]
          exI [of _ out] exI [of _ out2]) simp
qed

section \<open>Lines of the written text\<close>

lemma split_nl_nonempty [simp]: "split_nl s \<noteq> []"
  by (induction s) (auto split: list.splits)

lemma split_nl_append_newline:
  "split_nl (xs @ CHR 0x0A # ys) = split_nl xs @ split_nl ys"
proof (induction xs)
  case Nil
  then show ?case by simp
next
  case (Cons c xs)
  obtain l ls where "split_nl xs = l # ls" using split_nl_nonempty [of xs] by (cases "split_nl xs") auto
  with Cons show ?case by simp
qed

lemma split_nl_no_newline: "l \<in> set (split_nl s) \<Longrightarrow> CHR 0x0A \<notin> set l"
  by (induction s arbitrary: l) (auto split: if_splits list.splits)

lemma split_nl_line: "CHR 0x0A \<notin> set l \<Longrightarrow> split_nl l = [l]"
  by (induction l) auto

lemma join_nl_Cons: "xs \<noteq> [] \<Longrightarrow> join_nl (x # xs) = x @ CHR 0x0A # join_nl xs"
  by (cases xs) auto

lemma split_nl_join_nl_Cons:
  "xs \<noteq> [] \<Longrightarrow> split_nl (join_nl (x # xs)) = split_nl x @ split_nl (join_nl xs)"
  by (simp add: join_nl_Cons split_nl_append_newline)

lemma split_nl_join_nl:
  "ls \<noteq> [] \<Longrightarrow> \<forall>l\<in>set ls. CHR 0x0A \<notin> set l \<Longrightarrow> split_nl (join_nl ls) = ls"
proof (induction ls rule: join_nl.induct)
  case 1
  then show ?case by simp
next
  case (2 x)
  then show ?case by (simp add: split_nl_line)
next
  case (3 x y ys)
  then show ?case by (simp add: split_nl_append_newline split_nl_line)
qed

lemma not_block_start_empty: "\<not> is_block_start []"
  by (simp add: is_block_start_def startswith_def strip_def)

lemma header_lines_no_start: "l \<in> set (header_lines s) \<Longrightarrow> \<not> is_block_start l"
  unfolding header_lines_def by (auto dest: set_takeWhileD)

lemma header_lines_no_newline: "l \<in> set (header_lines s) \<Longrightarrow> CHR 0x0A \<notin> set l"
  unfolding header_lines_def by (auto dest: set_takeWhileD split_nl_no_newline)

lemma header_text_lines:
  "split_nl (join_nl (header_lines s)) = (if header_lines s = [] then [[]] else header_lines s)"
  using split_nl_join_nl [of "header_lines s"] header_lines_no_newline [of _ s] by auto

lemma header_text_no_start: "l \<in> set (split_nl (join_nl (header_lines s))) \<Longrightarrow> \<not> is_block_start l"
  unfolding header_text_lines
  by (auto simp: not_block_start_empty dest: header_lines_no_start split: if_splits)

lemma takeWhile_longer:
  "\<forall>x\<in>set xs. P x \<Longrightarrow> P y \<Longrightarrow> takeWhile P (xs @ y # ys) \<noteq> xs"
proof -
  assume "\<forall>x\<in>set xs. P x" "P y"
  then have "takeWhile P (xs @ y # ys) = xs @ y # takeWhile P ys"
    by simp
  then show ?thesis by simp
qed

lemma consolidated_lines:
  "split_nl (join_nl (consolidated h ae am))
     = split_nl h @ [[], banner, ''// ENUMS'', banner, []]
       @ split_nl (join_nl (section_entries ae
                            @ [CHR 0x0A # banner, ''// MODELS'', banner @ [CHR 0x0A]]
                            @ section_entries am))"
proof -
  have b: "CHR 0x0A \<notin> set banner" by (simp add: banner_def)
  let ?rest = "section_entries ae @ [CHR 0x0A # banner, ''// MODELS'', banner @ [CHR 0x0A]]
               @ section_entries am"
  have ne: "?rest \<noteq> []" by simp
  have "consolidated h ae am = h # (CHR 0x0A # banner) # ''// ENUMS'' # (banner @ [CHR 0x0A]) # ?rest"
    by (simp add: consolidated_def)
  then have "split_nl (join_nl (consolidated h ae am))
     = split_nl h @ split_nl (CHR 0x0A # banner) @ split_nl ''// ENUMS''
       @ split_nl (banner @ [CHR 0x0A]) @ split_nl (join_nl ?rest)"
    using ne by (simp only: split_nl_join_nl_Cons list.distinct not_False_eq_True)
  moreover have "split_nl (CHR 0x0A # banner) = [[], banner]"
    using split_nl_line [OF b] by simp
  moreover have "split_nl (banner @ [CHR 0x0A]) = [banner, []]"
    using split_nl_append_newline [of banner "[]"] split_nl_line [OF b] by simp
  moreover have "split_nl ''// ENUMS'' = [''// ENUMS'']" by simp
  ultimately show ?thesis by simp
qed

lemma banner_lines_no_start:
  "\<not> is_block_start banner" "\<not> is_block_start ''// ENUMS''"
  by (simp_all add: is_block_start_def startswith_def strip_def isspace_def banner_def)

section \<open>Merging the written text again\<close>

lemma remerge_differs:
  assumes "merge_contents text [] = Inr r'"
  shows "written r' \<noteq> text"
proof
  assume eq: "written r' = text"
  let ?P = "\<lambda>line. \<not> is_block_start line"
  let ?H = "header_lines text"
  have w: "written r' = join_nl (consolidated (join_nl ?H) (all_enums_end r') (all_models_end r'))"
    using assms by (auto simp: merge_contents_def Let_def split: sum.splits prod.splits)
  obtain tail where lines: "split_nl text = split_nl (join_nl ?H) @ [] # tail"
    using consolidated_lines [of "join_nl ?H" "all_enums_end r'" "all_models_end r'"] w eq
    by simp
  have all: "\<forall>x\<in>set (split_nl (join_nl ?H)). ?P x" using header_text_no_start by blast
  have ne0: "takeWhile ?P (split_nl (join_nl ?H) @ [] # tail) \<noteq> split_nl (join_nl ?H)"
    using all not_block_start_empty by (rule takeWhile_longer)
  have H: "?H = takeWhile ?P (split_nl (join_nl ?H) @ [] # tail)"
  proof -
    have "?H = takeWhile ?P (split_nl text)" by (simp add: header_lines_def)
    also have "\<dots> = takeWhile ?P (split_nl (join_nl ?H) @ [] # tail)"
      using lines by (rule arg_cong)
    finally show ?thesis .
  qed
  have ne: "?H \<noteq> split_nl (join_nl ?H)"
  proof
    assume a: "?H = split_nl (join_nl ?H)"
    from trans [OF H [symmetric] a] ne0 show False by contradiction
  qed
  have "?H = []"
  proof (rule ccontr)
    assume "?H \<noteq> []"
    then have "split_nl (join_nl ?H) = ?H" by (simp add: header_text_lines)
    with ne show False by simp
  qed
  moreover have "?H \<noteq> []"
  proof -
    have "split_nl text = [] # ([] # tail)"
      using lines \<open>?H = []\<close> by (simp add: header_text_lines)
    then show ?thesis by (simp add: header_lines_def not_block_start_empty)
  qed
  ultimately show False by simp
qed

lemma header_lines_of_output:
  "\<exists>rest. header_lines (join_nl (consolidated (join_nl (header_lines s)) ae am))
     = split_nl (join_nl (header_lines s)) @ [[], banner, ''// ENUMS'', banner, []] @ rest"
proof -
  let ?P = "\<lambda>line. \<not> is_block_start line"
  let ?h = "split_nl (join_nl (header_lines s))"
  let ?tail = "split_nl (join_nl (section_entries ae
                            @ [CHR 0x0A # banner, ''// MODELS'', banner @ [CHR 0x0A]]
                            @ section_entries am))"
  have "\<forall>x\<in>set (?h @ [[], banner, ''// ENUMS'', banner, []]). ?P x"
    using header_text_no_start [of _ s] banner_lines_no_start not_block_start_empty by auto
  then have "takeWhile ?P ((?h @ [[], banner, ''// ENUMS'', banner, []]) @ ?tail)
           = (?h @ [[], banner, ''// ENUMS'', banner, []]) @ takeWhile ?P ?tail"
    by (intro takeWhile_append2) blast
  then have "header_lines (join_nl (consolidated (join_nl (header_lines s)) ae am))
           = ?h @ [[], banner, ''// ENUMS'', banner, []] @ takeWhile ?P ?tail"
    unfolding header_lines_def [of "join_nl _"] consolidated_lines by simp
  then show ?thesis by (rule exI)
qed

lemma split_nl_join_nl_concat:
  "xs \<noteq> [] \<Longrightarrow> split_nl (join_nl xs) = concat (map split_nl xs)"
proof (induction xs rule: join_nl.induct)
  case 1
  then show ?case by simp
next
  case (2 x)
  then show ?case by simp
next
  case (3 x y ys)
  then show ?case by (simp add: split_nl_append_newline)
qed

lemma join_nl_split_nl: "join_nl (split_nl s) = s"
proof (induction s)
  case Nil
  then show ?case by simp
next
  case (Cons c s)
  obtain l ls where sp: "split_nl s = l # ls"
    using split_nl_nonempty [of s] by (cases "split_nl s") auto
  show ?case
  proof (cases "c = CHR 0x0A")
    case True
    with Cons sp show ?thesis by simp
  next
    case False
    with Cons sp show ?thesis by (cases ls) auto
  qed
qed

lemma run_loop_append_Inr:
  "run_loop body xs s = Inr s' \<Longrightarrow> run_loop body ys s' = Inr s'' \<Longrightarrow>
   run_loop body (xs @ ys) s = Inr s''"
  by (simp add: run_loop_append)

lemma skip_lines:
  "\<forall>l\<in>set ls. \<not> opens kw l \<Longrightarrow>
   run_loop (keyword_body kw) ls (blocks, None, [], False, bc) = Inr (blocks, None, [], False, bc)"
  by (induction ls) (simp_all add: opens_def)

lemma not_opens_empty: "is_keyword kw \<Longrightarrow> \<not> opens kw []"
  by (auto simp: opens_def startswith_def strip_def is_keyword_def)

lemma scan_well_formed_block:
  assumes kw: "is_keyword kw" and wf: "well_formed_block kw other (name, raw)"
  shows "run_loop (keyword_body kw) (split_nl raw @ [[]]) (blocks, None, [], False, bc)
           = Inr (AList.update name raw blocks, None, [], False, 0)"
proof -
  from wf have span: "block_span kw name (split_nl raw)" and cl: "closed_normally (split_nl raw)"
    by (simp_all add: well_formed_block_def)
  from cl obtain line body where ls: "split_nl raw = line # body" and body: "body \<noteq> []"
    by (cases "split_nl raw"; cases "tl (split_nl raw)") (auto simp: closed_normally_def)
  have op: "opens kw line" and nm: "item (split_ws (strip line)) 1 = Inr name"
    and no: "\<forall>l\<in>set body. \<not> opens kw l"
    using span ls by (simp_all add: block_span_def)
  have nz: "\<forall>k\<in>{1..<length body}. balance (line # take k body) \<noteq> 0"
  proof
    fix k assume "k \<in> {1..<length body}"
    then have "Suc k \<in> {2..<length (split_nl raw)}" using ls by simp
    with span have "balance (take (Suc k) (split_nl raw)) \<noteq> 0" by (simp add: block_span_def)
    then show "balance (line # take k body) \<noteq> 0" using ls by simp
  qed
  have z: "balance (line # body) = 0" using cl ls by (simp add: closed_normally_def)
  have "run_loop (keyword_body kw) (line # body) (blocks, None, [], False, bc)
     = Inr (AList.update name (join_nl (line # body)) (flush blocks None []), None, [], False, 0)"
    using op nm body no nz z by (rule block_closed)
  moreover have "join_nl (line # body) = raw" using join_nl_split_nl [of raw] ls by simp
  ultimately have "run_loop (keyword_body kw) (split_nl raw) (blocks, None, [], False, bc)
     = Inr (AList.update name raw blocks, None, [], False, 0)"
    using ls by (simp add: flush_def)
  then show ?thesis
    using not_opens_empty [OF kw] by (simp add: run_loop_append opens_def)
qed

lemma scan_section:
  assumes kw: "is_keyword kw"
  shows "\<forall>n\<in>set ns. well_formed_block kw other (n, f n) \<Longrightarrow>
     run_loop (keyword_body kw) (concat (map (\<lambda>n. split_nl (f n) @ [[]]) ns))
        (blocks, None, [], False, 0)
      = Inr (fold (\<lambda>n. AList.update n (f n)) ns blocks, None, [], False, 0)"
proof (induction ns arbitrary: blocks)
  case Nil
  then show ?case by simp
next
  case (Cons n ns)
  have "run_loop (keyword_body kw) (split_nl (f n) @ [[]]) (blocks, None, [], False, 0)
           = Inr (AList.update n (f n) blocks, None, [], False, 0)"
    using kw Cons.prems by (intro scan_well_formed_block [where other = other]) auto
  moreover have "run_loop (keyword_body kw) (concat (map (\<lambda>n. split_nl (f n) @ [[]]) ns))
        (AList.update n (f n) blocks, None, [], False, 0)
      = Inr (fold (\<lambda>n. AList.update n (f n)) ns (AList.update n (f n) blocks), None, [], False, 0)"
    using Cons.prems by (intro Cons.IH) auto
  ultimately show ?case unfolding list.map concat.simps fold_simps by (rule run_loop_append_Inr)
qed

lemma fold_update_fresh:
  "distinct ns \<Longrightarrow> set ns \<inter> fst ` set blocks = {} \<Longrightarrow>
   fold (\<lambda>n. AList.update n (f n)) ns blocks = blocks @ map (\<lambda>n. (n, f n)) ns"
proof (induction ns arbitrary: blocks)
  case Nil
  then show ?case by simp
next
  case (Cons n ns)
  have fresh: "n \<notin> fst ` set blocks" using Cons.prems(2) by auto
  then have u: "AList.update n (f n) blocks = blocks @ [(n, f n)]"
    by (induction blocks) auto
  have "set ns \<inter> fst ` set (blocks @ [(n, f n)]) = {}"
    using Cons.prems by auto
  with Cons.IH [of "blocks @ [(n, f n)]"] Cons.prems(1) u show ?case by simp
qed

lemma sorted_keys_distinct: "distinct (map fst d) \<Longrightarrow> distinct (sorted_keys d)"
  by (simp add: sorted_keys_def)

lemma scan_own_section:
  assumes kw: "is_keyword kw" and d: "distinct (map fst d)"
    and wf: "\<forall>e\<in>set d. well_formed_block kw other e"
  shows "run_loop (keyword_body kw) (section_lines d) ([], None, [], False, 0)
           = Inr (rescanned d, None, [], False, 0)"
proof -
  have "well_formed_block kw other (n, the (map_of d n))" if "n \<in> set (sorted_keys d)" for n
  proof -
    from that obtain v where "(n, v) \<in> set d" by (auto simp: sorted_keys_def)
    moreover from this d have "map_of d n = Some v" by simp
    ultimately show ?thesis using wf by auto
  qed
  then have "run_loop (keyword_body kw) (section_lines d) ([], None, [], False, 0)
      = Inr (fold (\<lambda>n. AList.update n (the (map_of d n))) (sorted_keys d) [], None, [], False, 0)"
    unfolding section_lines_def using kw by (intro scan_section [where other = other]) auto
  moreover have "fold (\<lambda>n. AList.update n (the (map_of d n))) (sorted_keys d) [] = rescanned d"
    using fold_update_fresh [of "sorted_keys d" "[]"] sorted_keys_distinct [OF d]
    by (simp add: rescanned_def)
  ultimately show ?thesis by simp
qed

lemma rescanned_keys: "sorted_keys (rescanned d) = sorted_keys d"
proof -
  have "map fst (rescanned d) = sorted_keys d" by (simp add: rescanned_def comp_def)
  then have "sorted_keys (rescanned d) = sort (sorted_keys d)" by (simp add: sorted_keys_def)
  also have "\<dots> = sorted_keys d" by (simp add: sorted_keys_def sorted_sort_id)
  finally show ?thesis .
qed

lemma rescanned_lookup:
  assumes "distinct (map fst d)"
  shows "map_of (rescanned d) = map_of d"
proof
  fix n
  show "map_of (rescanned d) n = map_of d n"
  proof (cases "n \<in> set (sorted_keys d)")
    case True
    then have "map_of d n \<noteq> None" by (simp add: sorted_keys_def map_of_eq_None_iff)
    moreover have "map_of (rescanned d) n = Some (the (map_of d n))"
      using True unfolding rescanned_def by (simp add: map_of_map_restrict)
    ultimately show ?thesis by auto
  next
    case False
    then have "map_of d n = None" by (simp add: sorted_keys_def map_of_eq_None_iff)
    moreover have "map_of (rescanned d) n = None"
      using False by (simp add: rescanned_def map_of_eq_None_iff image_image)
    ultimately show ?thesis by simp
  qed
qed

lemma rescanned_entries:
  "distinct (map fst d) \<Longrightarrow> section_entries (rescanned d) = section_entries d"
  by (simp add: section_entries_def rescanned_keys rescanned_lookup)

lemma section_entries_lines: "concat (map split_nl (section_entries d)) = section_lines d"
proof -
  have "concat (map split_nl (concat (map (\<lambda>n. [f n, []]) ns)))
          = concat (map (\<lambda>n. split_nl (f n) @ [[]]) ns)" for f :: "string \<Rightarrow> string" and ns
    by (induction ns) simp_all
  then show ?thesis by (simp add: section_entries_the section_lines_def)
qed

lemma output_lines:
  "split_nl (join_nl (consolidated h ae am))
     = split_nl h @ [[], banner, ''// ENUMS'', banner, []] @ section_lines ae
       @ [[], banner, ''// MODELS'', banner, []] @ section_lines am"
proof -
  have b: "CHR 0x0A \<notin> set banner" by (simp add: banner_def)
  have 1: "split_nl (CHR 0x0A # banner) = [[], banner]"
    using split_nl_line [OF b] by simp
  have 2: "split_nl (banner @ [CHR 0x0A]) = [banner, []]"
    using split_nl_append_newline [of banner "[]"] split_nl_line [OF b] by simp
  have "consolidated h ae am \<noteq> []" by (simp add: consolidated_def)
  then have "split_nl (join_nl (consolidated h ae am)) = concat (map split_nl (consolidated h ae am))"
    by (rule split_nl_join_nl_concat)
  also have "\<dots> = split_nl h @ [[], banner, ''// ENUMS'', banner, []] @ section_lines ae
       @ [[], banner, ''// MODELS'', banner, []] @ section_lines am"
    unfolding consolidated_def
    by (simp add: split_nl_line [OF b] split_nl_append_newline section_entries_lines)
  finally show ?thesis .
qed

lemma section_lines_other:
  assumes "is_keyword other" "\<forall>e\<in>set d. \<forall>l\<in>set (split_nl (snd e)). \<not> opens other l"
  shows "\<forall>l\<in>set (section_lines d). \<not> opens other l"
proof
  fix l assume a: "l \<in> set (section_lines d)"
  show "\<not> opens other l"
  proof (cases "l = []")
    case True
    then show ?thesis using not_opens_empty [OF assms(1)] by simp
  next
    case False
    with a obtain n where n: "n \<in> set (sorted_keys d)"
      and l: "l \<in> set (split_nl (the (map_of d n)))"
      by (auto simp: section_lines_def split: if_splits)
    from n have "map_of d n \<noteq> None" by (simp add: sorted_keys_def map_of_eq_None_iff)
    then obtain v where v: "map_of d n = Some v" by auto
    then have "(n, v) \<in> set d" by (rule map_of_SomeD)
    with assms(2) have "\<forall>l\<in>set (split_nl v). \<not> opens other l" by auto
    with l v show ?thesis by simp
  qed
qed

lemma scan_output:
  assumes kw: "is_keyword kw"
    and lines: "split_nl text = pre @ section_lines d @ post"
    and pre: "\<forall>l\<in>set pre. \<not> opens kw l" and post: "\<forall>l\<in>set post. \<not> opens kw l"
    and d: "distinct (map fst d)" and wf: "\<forall>e\<in>set d. well_formed_block kw other e"
  shows "extract_with_keyword kw text = Inr (rescanned d)"
proof -
  have 1: "run_loop (keyword_body kw) pre ([], None, [], False, 0) = Inr ([], None, [], False, 0)"
    using pre by (rule skip_lines)
  have 2: "run_loop (keyword_body kw) (section_lines d) ([], None, [], False, 0)
             = Inr (rescanned d, None, [], False, 0)"
    using kw d wf by (rule scan_own_section)
  have 3: "run_loop (keyword_body kw) post (rescanned d, None, [], False, 0)
             = Inr (rescanned d, None, [], False, 0)"
    using post by (rule skip_lines)
  have "run_loop (keyword_body kw) (pre @ section_lines d @ post) ([], None, [], False, 0)
          = Inr (rescanned d, None, [], False, 0)"
    by (rule run_loop_append_Inr [OF 1 run_loop_append_Inr [OF 2 3]])
  then show ?thesis by (simp add: extract_with_keyword_def lines flush_def)
qed

lemma header_text_not_opens:
  assumes "l \<in> set (split_nl (join_nl (header_lines s)))"
  shows "\<not> opens ''model '' l" "\<not> opens ''enum '' l"
  using header_text_no_start [OF assms] by (simp_all add: is_block_start_def opens_def)

lemma banner_not_opens:
  assumes "l \<in> set [[], banner, title, banner, []]" "title = ''// ENUMS'' \<or> title = ''// MODELS''"
  shows "\<not> opens ''model '' l" "\<not> opens ''enum '' l"
  using assms by (auto simp: opens_def startswith_def strip_def isspace_def banner_def)

lemma rescan_output:
  assumes dm: "distinct (map fst am)" and de: "distinct (map fst ae)"
    and wm: "\<forall>e\<in>set am. well_formed_block ''model '' ''enum '' e"
    and we: "\<forall>e\<in>set ae. well_formed_block ''enum '' ''model '' e"
  shows "extract_models (join_nl (consolidated (join_nl (header_lines s)) ae am)) = Inr (rescanned am)"
    and "extract_enums (join_nl (consolidated (join_nl (header_lines s)) ae am)) = Inr (rescanned ae)"
proof -
  let ?h = "split_nl (join_nl (header_lines s))"
  let ?T = "join_nl (consolidated (join_nl (header_lines s)) ae am)"
  have em: "\<forall>l\<in>set (section_lines ae). \<not> opens ''model '' l"
    using we by (intro section_lines_other) (auto simp: well_formed_block_def)
  have me: "\<forall>l\<in>set (section_lines am). \<not> opens ''enum '' l"
    using wm by (intro section_lines_other) (auto simp: well_formed_block_def)
  have lm: "split_nl ?T = (?h @ [[], banner, ''// ENUMS'', banner, []] @ section_lines ae
       @ [[], banner, ''// MODELS'', banner, []]) @ section_lines am @ []"
    by (simp add: output_lines)
  have pm: "\<forall>l\<in>set (?h @ [[], banner, ''// ENUMS'', banner, []] @ section_lines ae
       @ [[], banner, ''// MODELS'', banner, []]). \<not> opens ''model '' l"
  proof
    fix l
    assume "l \<in> set (?h @ [[], banner, ''// ENUMS'', banner, []] @ section_lines ae
       @ [[], banner, ''// MODELS'', banner, []])"
    then consider "l \<in> set ?h" | "l \<in> set [[], banner, ''// ENUMS'', banner, []]"
      | "l \<in> set (section_lines ae)" | "l \<in> set [[], banner, ''// MODELS'', banner, []]"
      by (auto simp only: set_append Un_iff)
    then show "\<not> opens ''model '' l"
    proof cases
      case 1 then show ?thesis by (rule header_text_not_opens)
    next
      case 2 then show ?thesis by (rule banner_not_opens) simp
    next
      case 3 with em show ?thesis by blast
    next
      case 4 then show ?thesis by (rule banner_not_opens) simp
    qed
  qed
  show "extract_models ?T = Inr (rescanned am)"
    unfolding extract_models_keyword
    using is_keyword_model lm pm _ dm wm by (rule scan_output) simp
  have le: "split_nl ?T = (?h @ [[], banner, ''// ENUMS'', banner, []]) @ section_lines ae
       @ ([[], banner, ''// MODELS'', banner, []] @ section_lines am)"
    by (simp add: output_lines)
  have pe: "\<forall>l\<in>set (?h @ [[], banner, ''// ENUMS'', banner, []]). \<not> opens ''enum '' l"
  proof
    fix l
    assume "l \<in> set (?h @ [[], banner, ''// ENUMS'', banner, []])"
    then consider "l \<in> set ?h" | "l \<in> set [[], banner, ''// ENUMS'', banner, []]"
      by (auto simp only: set_append Un_iff)
    then show "\<not> opens ''enum '' l"
    proof cases
      case 1 then show ?thesis by (rule header_text_not_opens)
    next
      case 2 then show ?thesis by (rule banner_not_opens) simp
    qed
  qed
  have qe: "\<forall>l\<in>set ([[], banner, ''// MODELS'', banner, []] @ section_lines am). \<not> opens ''enum '' l"
  proof
    fix l
    assume "l \<in> set ([[], banner, ''// MODELS'', banner, []] @ section_lines am)"
    then consider "l \<in> set [[], banner, ''// MODELS'', banner, []]" | "l \<in> set (section_lines am)"
      by (auto simp only: set_append Un_iff)
    then show "\<not> opens ''enum '' l"
    proof cases
      case 1 then show ?thesis by (rule banner_not_opens) simp
    next
      case 2 with me show ?thesis by blast
    qed
  qed
  show "extract_enums ?T = Inr (rescanned ae)"
    unfolding extract_enums_keyword
    using is_keyword_enum le pe qe de we by (rule scan_output)
qed

lemma remerge_well_formed:
  assumes r: "merge_contents main_content additional = Inr r"
    and r': "merge_contents (written r) [] = Inr r'"
    and wm: "\<forall>e\<in>set (all_models_end r). well_formed_block ''model '' ''enum '' e"
    and we: "\<forall>e\<in>set (all_enums_end r). well_formed_block ''enum '' ''model '' e"
  shows "all_models_end r' = rescanned (all_models_end r)"
    and "all_enums_end r' = rescanned (all_enums_end r)"
proof -
  have w: "written r = join_nl (consolidated (join_nl (header_lines main_content))
                               (all_enums_end r) (all_models_end r))"
    using r by (auto simp: merge_contents_def Let_def split: sum.splits prod.splits)
  note d = merge_registries_distinct [OF r]
  have m: "extract_models (written r) = Inr (rescanned (all_models_end r))"
    unfolding w using d wm we by (rule rescan_output(1))
  have e: "extract_enums (written r) = Inr (rescanned (all_enums_end r))"
    unfolding w using d wm we by (rule rescan_output(2))
  have l: "run_loop merge_body [] (rescanned (all_models_end r), rescanned (all_enums_end r),
             [Main_schema_has (length (rescanned (all_models_end r)))
                (length (rescanned (all_enums_end r)))])
         = Inr (rescanned (all_models_end r), rescanned (all_enums_end r),
             [Main_schema_has (length (rescanned (all_models_end r)))
                (length (rescanned (all_enums_end r)))])"
    by simp
  from merge_contents_unfold [OF m e l] r'
  show "all_models_end r' = rescanned (all_models_end r)"
    and "all_enums_end r' = rescanned (all_enums_end r)"
    by auto
qed

section \<open>The earliest document wins\<close>

lemma texts_present_append: "texts_present (xs @ ys) = texts_present xs @ texts_present ys"
  by (induction xs rule: texts_present.induct) simp_all

lemma first_seen_append:
  "first_seen extract (xs @ ys) A
     = (case first_seen extract xs A of Some X \<Rightarrow> Some X | None \<Rightarrow> first_seen extract ys A)"
  by (induction xs) (auto split: sum.splits option.splits)

lemma merge_body_lookup:
  assumes "merge_body (am, ae, out) d = Inr (am', ae', out')"
  shows "map_of am' A = (case map_of am A of Some X \<Rightarrow> Some X
                          | None \<Rightarrow> first_seen extract_models (texts_present [d]) A)"
    and "map_of ae' A = (case map_of ae A of Some X \<Rightarrow> Some X
                          | None \<Rightarrow> first_seen extract_enums (texts_present [d]) A)"
proof -
  obtain path c where d: "d = (path, c)" by (cases d)
  show "map_of am' A = (case map_of am A of Some X \<Rightarrow> Some X
                          | None \<Rightarrow> first_seen extract_models (texts_present [d]) A)"
  proof (cases c)
    case None
    with assms d show ?thesis by (auto split: option.splits)
  next
    case (Some content)
    obtain sm where sm: "extract_models content = Inr sm"
      using extract_models_total [of content] by (elim exE)
    obtain se where se: "extract_enums content = Inr se"
      using extract_enums_total [of content] by (elim exE)
    let ?out1 = "out @ [File_counts (path_name path) (length sm) (length se)]"
    from assms have "am' = fst (add_models sm (am, ?out1))"
      unfolding d Some by (auto simp: sm se split_beta Let_def)
    then have "map_of am' A = (case map_of am A of Some X \<Rightarrow> Some X | None \<Rightarrow> map_of sm A)"
      by (simp add: add_models_blocks add_blocks_lookup)
    then show ?thesis unfolding d Some by (simp add: sm split: option.splits)
  qed
  show "map_of ae' A = (case map_of ae A of Some X \<Rightarrow> Some X
                          | None \<Rightarrow> first_seen extract_enums (texts_present [d]) A)"
  proof (cases c)
    case None
    with assms d show ?thesis by (auto split: option.splits)
  next
    case (Some content)
    obtain sm where sm: "extract_models content = Inr sm"
      using extract_models_total [of content] by (elim exE)
    obtain se where se: "extract_enums content = Inr se"
      using extract_enums_total [of content] by (elim exE)
    let ?out1 = "out @ [File_counts (path_name path) (length sm) (length se)]"
    from assms have "ae' = fst (add_enums se (ae, snd (add_models sm (am, ?out1))))"
      unfolding d Some by (auto simp: sm se split_beta Let_def)
    then have "map_of ae' A = (case map_of ae A of Some X \<Rightarrow> Some X | None \<Rightarrow> map_of se A)"
      by (simp add: add_enums_blocks add_blocks_lookup)
    then show ?thesis unfolding d Some by (simp add: se split: option.splits)
  qed
qed

lemma merge_loop_lookup:
  "run_loop merge_body ds (am, ae, out) = Inr (am', ae', out') \<Longrightarrow>
     map_of am' A = (case map_of am A of Some X \<Rightarrow> Some X
                      | None \<Rightarrow> first_seen extract_models (texts_present ds) A)
   \<and> map_of ae' A = (case map_of ae A of Some X \<Rightarrow> Some X
                      | None \<Rightarrow> first_seen extract_enums (texts_present ds) A)"
proof (induction ds arbitrary: am ae out)
  case Nil
  then show ?case by (simp split: option.splits)
next
  case (Cons d ds)
  from Cons.prems obtain am1 ae1 out1
    where 1: "merge_body (am, ae, out) d = Inr (am1, ae1, out1)"
      and 2: "run_loop merge_body ds (am1, ae1, out1) = Inr (am', ae', out')"
    by (auto split: sum.splits)
  note b = merge_body_lookup [OF 1, of A]
  note l = Cons.IH [OF 2]
  have t: "texts_present (d # ds) = texts_present [d] @ texts_present ds"
    using texts_present_append [of "[d]" ds] by simp
  show ?case
    unfolding t first_seen_append using b l by (auto split: option.splits)
qed

lemma merge_first_seen:
  assumes "merge_contents main_content additional = Inr r"
  shows "map_of (all_models_end r) A
           = first_seen extract_models (main_content # texts_present additional) A"
    and "map_of (all_enums_end r) A
           = first_seen extract_enums (main_content # texts_present additional) A"
proof -
  from merge_contents_state [OF assms] obtain pm pe out
    where p: "extract_models main_content = Inr pm" "extract_enums main_content = Inr pe"
      "run_loop merge_body additional (pm, pe, [Main_schema_has (length pm) (length pe)])
         = Inr (all_models_end r, all_enums_end r, out)"
    by (elim exE conjE)
  note l = merge_loop_lookup [OF p(3), of A]
  from l p(1) show "map_of (all_models_end r) A
           = first_seen extract_models (main_content # texts_present additional) A"
    by (simp split: option.splits)
  from l p(2) show "map_of (all_enums_end r) A
           = first_seen extract_enums (main_content # texts_present additional) A"
    by (simp split: option.splits)
qed

lemma merge_adds_or_skips:
  assumes kind: "(extract, registry, added, skipped) \<in>
       {(extract_models, all_models_end, Added_model, Skipped_duplicate_model),
        (extract_enums, all_enums_end, Added_enum, Skipped_duplicate_enum)}"
    and sb: "extract content = Inr blocks" and Y: "map_of blocks A = Some Y"
  shows "\<exists>r models enums evs out1 out2.
           merge_contents main_content (before @ (path, Some content) # after) = Inr r
         \<and> extract_models content = Inr models \<and> extract_enums content = Inr enums
         \<and> printed r = out1 @ File_counts (path_name path) (length models) (length enums)
                             # evs @ out2
         \<and> length evs = length models + length enums
         \<and> (case first_seen extract (main_content # texts_present before) A of
               Some X \<Rightarrow> map_of (registry r) A = Some X \<and> skipped A \<in> set evs
             | None \<Rightarrow> map_of (registry r) A = Some Y \<and> added A \<in> set evs)"
proof -
  obtain rb where rb: "merge_contents main_content before = Inr rb"
    using merge_contents_total [of main_content before] by (elim exE)
  from merge_contents_state [OF rb] obtain pm pe out
    where p: "extract_models main_content = Inr pm" "extract_enums main_content = Inr pe"
      "run_loop merge_body before (pm, pe, [Main_schema_has (length pm) (length pe)])
         = Inr (all_models_end rb, all_enums_end rb, out)"
    by (elim exE conjE)
  obtain sm where sm: "extract_models content = Inr sm"
    using extract_models_total [of content] by (elim exE)
  obtain se where se: "extract_enums content = Inr se"
    using extract_enums_total [of content] by (elim exE)
  from merge_contents_found [OF p sm se, of path after] obtain r evs out2
    where h: "merge_contents main_content (before @ (path, Some content) # after) = Inr r"
      "printed r = out @ File_counts (path_name path) (length sm) (length se) # evs @ out2"
      "length evs = length sm + length se"
      "keeps (all_models_end rb) (all_models_end r)" "keeps (all_enums_end rb) (all_enums_end r)"
      "\<forall>A X. map_of (all_models_end rb) A = Some X \<longrightarrow> A \<in> fst ` set sm
          \<longrightarrow> Skipped_duplicate_model A \<in> set evs"
      "\<forall>A X. map_of (all_enums_end rb) A = Some X \<longrightarrow> A \<in> fst ` set se
          \<longrightarrow> Skipped_duplicate_enum A \<in> set evs"
      "\<forall>A. map_of (all_models_end rb) A = None \<longrightarrow> A \<in> fst ` set sm
          \<longrightarrow> Added_model A \<in> set evs"
      "\<forall>A. map_of (all_enums_end rb) A = None \<longrightarrow> A \<in> fst ` set se
          \<longrightarrow> Added_enum A \<in> set evs"
    by (elim exE conjE)
  have key: "A \<in> fst ` set blocks" using Y by (rule map_of_key)
  note fb = merge_first_seen [OF rb, of A]
  note fr = merge_first_seen [OF h(1), of A]
  have t: "texts_present (before @ (path, Some content) # after)
             = texts_present before @ content # texts_present after"
    by (simp add: texts_present_append)
  have c: "case first_seen extract (main_content # texts_present before) A of
               Some X \<Rightarrow> map_of (registry r) A = Some X \<and> skipped A \<in> set evs
             | None \<Rightarrow> map_of (registry r) A = Some Y \<and> added A \<in> set evs"
  proof -
    from kind consider
      (m) "extract = extract_models" "registry = all_models_end"
        "added = Added_model" "skipped = Skipped_duplicate_model"
      | (e) "extract = extract_enums" "registry = all_enums_end"
        "added = Added_enum" "skipped = Skipped_duplicate_enum"
      by auto
    then show ?thesis
    proof cases
      case m
      with sb sm have b: "blocks = sm" by simp
      show ?thesis
      proof (cases "first_seen extract_models (main_content # texts_present before) A")
        case None
        then have n: "map_of (all_models_end rb) A = None" using fb(1) by simp
        with h(8) key b have "Added_model A \<in> set evs" by simp
        moreover have "first_seen extract_models
            (main_content # texts_present (before @ (path, Some content) # after)) A = Some Y"
          unfolding t using first_seen_append [of extract_models "main_content # texts_present before"
              "content # texts_present after" A] None sm Y b
          by simp
        ultimately show ?thesis using m None fr(1) by simp
      next
        case (Some X)
        then have x: "map_of (all_models_end rb) A = Some X" using fb(1) by simp
        with h(6) key b have "Skipped_duplicate_model A \<in> set evs" by simp
        moreover from x h(4) have "map_of (all_models_end r) A = Some X" by (rule keepsD [rotated])
        ultimately show ?thesis using m Some by simp
      qed
    next
      case e
      with sb se have b: "blocks = se" by simp
      show ?thesis
      proof (cases "first_seen extract_enums (main_content # texts_present before) A")
        case None
        then have n: "map_of (all_enums_end rb) A = None" using fb(2) by simp
        with h(9) key b have "Added_enum A \<in> set evs" by simp
        moreover have "first_seen extract_enums
            (main_content # texts_present (before @ (path, Some content) # after)) A = Some Y"
          unfolding t using first_seen_append [of extract_enums "main_content # texts_present before"
              "content # texts_present after" A] None se Y b
          by simp
        ultimately show ?thesis using e None fr(2) by simp
      next
        case (Some X)
        then have x: "map_of (all_enums_end rb) A = Some X" using fb(2) by simp
        with h(7) key b have "Skipped_duplicate_enum A \<in> set evs" by simp
        moreover from x h(5) have "map_of (all_enums_end r) A = Some X" by (rule keepsD [rotated])
        ultimately show ?thesis using e Some by simp
      qed
    qed
  qed
  show ?thesis
    by (intro exI [of _ r] exI [of _ sm] exI [of _ se] exI [of _ evs]
          exI [of _ out] exI [of _ out2] conjI h(1) sm se h(2,3) c)
qed

lemma section_entries_at:
  assumes d: "distinct (map fst d)" and X: "map_of d A = Some X"
  shows "\<exists>names1 names2 texts1 texts2.
           sorted_keys d = names1 @ A # names2 \<and> A \<notin> set names1 \<and> A \<notin> set names2
         \<and> length texts1 = length names1 \<and> length texts2 = length names2
         \<and> section_entries d = concat (map (\<lambda>text. [text, []]) (texts1 @ X # texts2))"
proof -
  from X have "A \<in> set (sorted_keys d)"
    by (auto simp: sorted_keys_def dest: map_of_SomeD intro: rev_image_eqI)
  then obtain names1 names2 where s: "sorted_keys d = names1 @ A # names2"
    by (auto dest: split_list)
  have "distinct (sorted_keys d)" using d by (rule sorted_keys_distinct)
  then have n: "A \<notin> set names1" "A \<notin> set names2" unfolding s by auto
  let ?t = "map (\<lambda>name. the (map_of d name))"
  have e: "section_entries d = concat (map (\<lambda>text. [text, []]) (?t names1 @ X # ?t names2))"
    unfolding section_entries_the s using X by (simp add: comp_def)
  show ?thesis
    by (intro exI [of _ names1] exI [of _ names2] exI [of _ "?t names1"] exI [of _ "?t names2"]
          conjI s n e) simp_all
qed

section \<open>An entry stored early\<close>

lemma flush_other:
  "current \<noteq> Some n \<Longrightarrow> map_of (flush blocks current cc) n = map_of blocks n"
  by (cases current) (simp_all add: flush_def update_conv')

lemma entry_survives_step:
  assumes "opens kw l \<longrightarrow> item (split_ws (strip l)) 1 \<noteq> Inr n"
    and "current \<noteq> Some n"
    and "keyword_body kw (blocks, current, cc, ib, bc) l = Inr (blocks', current', cc', ib', bc')"
  shows "map_of blocks' n = map_of blocks n \<and> current' \<noteq> Some n"
proof (cases "opens kw l")
  case True
  with assms(3) obtain name where nm: "item (split_ws (strip l)) 1 = Inr name"
    and st: "blocks' = flush blocks current cc" "current' = Some name"
    by (auto simp: opens_def split: sum.splits)
  from True assms(1) nm have "name \<noteq> n" by auto
  with st assms(2) show ?thesis by (simp add: flush_other)
next
  case False
  show ?thesis
  proof (cases "ib \<and> bc + brace_delta l = 0")
    case True
    with False assms(3) obtain m where "current = Some m"
      "blocks' = AList.update m (join_nl (cc @ [l])) blocks" "current' = None"
      by (auto simp: opens_def Let_def split: option.splits)
    with assms(2) show ?thesis by (simp add: update_conv')
  next
    case False
    with \<open>\<not> opens kw l\<close> assms(3) have "blocks' = blocks" "current' = current"
      by (auto simp: opens_def Let_def split: if_splits)
    with assms(2) show ?thesis by simp
  qed
qed

lemma entry_survives:
  "\<forall>l\<in>set ls. opens kw l \<longrightarrow> item (split_ws (strip l)) 1 \<noteq> Inr n \<Longrightarrow>
   current \<noteq> Some n \<Longrightarrow>
   run_loop (keyword_body kw) ls (blocks, current, cc, ib, bc) = Inr (blocks', current', cc', ib', bc') \<Longrightarrow>
   map_of blocks' n = map_of blocks n \<and> current' \<noteq> Some n"
proof (induction ls arbitrary: blocks current cc ib bc)
  case Nil
  then show ?case by simp
next
  case (Cons l ls)
  from Cons.prems(3) obtain s1
    where 1: "keyword_body kw (blocks, current, cc, ib, bc) l = Inr s1"
      and 2: "run_loop (keyword_body kw) ls s1 = Inr (blocks', current', cc', ib', bc')"
    by (auto split: sum.splits)
  obtain b1 c1 cc1 ib1 bc1 where s1: "s1 = (b1, c1, cc1, ib1, bc1)" by (cases s1) auto
  have a: "map_of b1 n = map_of blocks n \<and> c1 \<noteq> Some n"
    using Cons.prems(1,2) 1 unfolding s1 by (intro entry_survives_step [of kw l n current blocks cc ib bc]) auto
  have b: "map_of blocks' n = map_of b1 n \<and> current' \<noteq> Some n"
    using Cons.prems(1) a 2 unfolding s1 by (intro Cons.IH [of c1 b1 cc1 ib1 bc1]) auto
  from a b show ?case by simp
qed

lemma run_loop_append_split:
  "run_loop body xs s = Inr s1 \<Longrightarrow> run_loop body (xs @ ys) s = run_loop body ys s1"
  by (simp add: run_loop_append)

lemma keyword_block_reopened_result:
  assumes kw: "is_keyword kw"
    and doc: "split_nl doc = pre @ line1 # mid @ line2 # post"
    and op1: "opens kw line1"
    and mid: "\<forall>l\<in>set mid. \<not> opens kw l"
      "\<forall>k\<in>{1..length mid}. balance (line1 # take k mid) \<noteq> 0"
    and op2: "opens kw line2"
    and n1: "item (split_ws (strip line1)) 1 = Inr name1"
    and later: "\<forall>l\<in>set (line2 # post). opens kw l \<longrightarrow> item (split_ws (strip l)) 1 \<noteq> Inr name1"
  shows "\<exists>result. extract_with_keyword kw doc = Inr result
           \<and> map_of result name1 = Some (join_nl (line1 # mid))"
proof -
  obtain s where s: "run_loop (keyword_body kw) pre start_state = Inr s"
    using scan_total [OF kw, of pre] by (elim exE conjE)
  obtain blocks current cc ib bc where t: "s = (blocks, current, cc, ib, bc)" by (cases s) auto
  from opens_item [OF kw op1] n1 have ne: "name1 \<noteq> []" by auto
  have step1: "run_loop (keyword_body kw) (line1 # mid) (blocks, current, cc, ib, bc)
     = Inr (flush blocks current cc, Some name1, line1 # mid, True, balance (line1 # mid))"
    using op1 n1 mid by (rule block_cut_off)
  obtain s' where s': "run_loop (keyword_body kw) (split_nl doc) start_state = Inr s'"
    using scan_total [OF kw, of "split_nl doc"] by (elim exE conjE)
  obtain b' c' cc' ib' bc' where t': "s' = (b', c', cc', ib', bc')" by (cases s') auto
  from opens_item [OF kw op2] obtain name2 where n2: "item (split_ws (strip line2)) 1 = Inr name2"
    by blast
  let ?st1 = "(flush blocks current cc, Some name1, line1 # mid, True, balance (line1 # mid))"
  let ?st2 = "(flush (flush blocks current cc) (Some name1) (line1 # mid),
              Some name2, [line2], True, brace_delta line2)"
  have k2: "keyword_body kw ?st1 line2 = Inr ?st2"
    using op2 n2 by (rule open_block)
  have d: "split_nl doc = pre @ ((line1 # mid) @ ([line2] @ post))" using doc by simp
  have e1: "run_loop (keyword_body kw) (pre @ ((line1 # mid) @ ([line2] @ post))) start_state
          = run_loop (keyword_body kw) ((line1 # mid) @ ([line2] @ post)) (blocks, current, cc, ib, bc)"
    using s [unfolded t] by (rule run_loop_append_split)
  have e2: "run_loop (keyword_body kw) ((line1 # mid) @ ([line2] @ post)) (blocks, current, cc, ib, bc)
          = run_loop (keyword_body kw) ([line2] @ post) ?st1"
    using step1 by (rule run_loop_append_split)
  have k2': "run_loop (keyword_body kw) [line2] ?st1 = Inr ?st2"
    by (simp only: run_loop.simps k2 sum.case)
  have e3: "run_loop (keyword_body kw) ([line2] @ post) ?st1 = run_loop (keyword_body kw) post ?st2"
    using k2' by (rule run_loop_append_split)
  have 3: "run_loop (keyword_body kw) post ?st2 = Inr (b', c', cc', ib', bc')"
    using s' [unfolded t' d e1 e2 e3] .
  have neq: "name2 \<noteq> name1" using later op2 n2 by auto
  have stored: "map_of (flush (flush blocks current cc) (Some name1) (line1 # mid)) name1
                  = Some (join_nl (line1 # mid))"
    using ne by (simp add: flush_def update_conv')
  have l': "\<forall>l\<in>set post. opens kw l \<longrightarrow> item (split_ws (strip l)) 1 \<noteq> Inr name1"
    using later by simp
  have c2: "Some name2 \<noteq> Some name1" using neq by simp
  have "map_of b' name1
          = map_of (flush (flush blocks current cc) (Some name1) (line1 # mid)) name1
        \<and> c' \<noteq> Some name1"
    using l' c2 3 by (rule entry_survives)
  with stored have fin: "map_of b' name1 = Some (join_nl (line1 # mid))" "c' \<noteq> Some name1"
    by simp_all
  have "extract_with_keyword kw doc = Inr (flush b' c' cc')"
    using s' t' by (simp add: extract_with_keyword_def start_state_def)
  moreover have "map_of (flush b' c' cc') name1 = Some (join_nl (line1 # mid))"
    using fin by (simp add: flush_other)
  ultimately show ?thesis by blast
qed

lemma open_entry_ends:
  "\<forall>l\<in>set ls. opens kw l \<longrightarrow> item (split_ws (strip l)) 1 \<noteq> Inr n \<Longrightarrow>
   n \<noteq> [] \<Longrightarrow> cc \<noteq> [] \<Longrightarrow>
   run_loop (keyword_body kw) ls (blocks, Some n, cc, True, bc) = Inr (b', c', cc', ib', bc') \<Longrightarrow>
   \<exists>k\<le>length ls. map_of (flush b' c' cc') n = Some (join_nl (cc @ take k ls))"
proof (induction ls arbitrary: blocks cc bc)
  case Nil
  then show ?case by (auto simp: flush_def update_conv')
next
  case (Cons l ls)
  from Cons.prems(4) obtain s1
    where 1: "keyword_body kw (blocks, Some n, cc, True, bc) l = Inr s1"
      and 2: "run_loop (keyword_body kw) ls s1 = Inr (b', c', cc', ib', bc')"
    by (auto split: sum.splits)
  have later: "\<forall>l\<in>set ls. opens kw l \<longrightarrow> item (split_ws (strip l)) 1 \<noteq> Inr n"
    using Cons.prems(1) by simp
  show ?case
  proof (cases "opens kw l")
    case True
    with 1 obtain m where m: "item (split_ws (strip l)) 1 = Inr m"
      and s1: "s1 = (flush blocks (Some n) cc, Some m, [l], True, brace_delta l)"
      by (auto simp: opens_def split: sum.splits)
    from True Cons.prems(1) m have "Some m \<noteq> Some n" by auto
    from entry_survives [OF later this 2 [unfolded s1]]
    have "map_of b' n = map_of (flush blocks (Some n) cc) n" "c' \<noteq> Some n" by simp_all
    then have "map_of (flush b' c' cc') n = Some (join_nl cc)"
      using Cons.prems(2,3) by (simp add: flush_other) (simp add: flush_def update_conv')
    then show ?thesis by (intro exI [of _ 0]) simp
  next
    case False
    show ?thesis
    proof (cases "bc + brace_delta l = 0")
      case True
      with False 1 have s1: "s1 = (AList.update n (join_nl (cc @ [l])) blocks, None, [], False, 0)"
        by (auto simp: opens_def Let_def)
      have "None \<noteq> Some n" by simp
      from entry_survives [OF later this 2 [unfolded s1]]
      have "map_of b' n = map_of (AList.update n (join_nl (cc @ [l])) blocks) n" "c' \<noteq> Some n"
        by simp_all
      then have "map_of (flush b' c' cc') n = Some (join_nl (cc @ [l]))"
        by (simp add: flush_other update_conv')
      then show ?thesis by (intro exI [of _ 1]) simp
    next
      case nz: False
      with False 1 have s1: "s1 = (blocks, Some n, cc @ [l], True, bc + brace_delta l)"
        by (auto simp: opens_def Let_def)
      have "cc @ [l] \<noteq> []" by simp
      from Cons.IH [OF later Cons.prems(2) this 2 [unfolded s1]]
      obtain k where k: "k \<le> length ls"
        "map_of (flush b' c' cc') n = Some (join_nl ((cc @ [l]) @ take k ls))" by blast
      then show ?thesis by (intro exI [of _ "Suc k"]) simp
    qed
  qed
qed

lemma last_opening_line_wins:
  assumes kw: "is_keyword kw"
    and doc: "split_nl doc = pre @ l # post"
    and op: "opens kw l"
    and n: "item (split_ws (strip l)) 1 = Inr n"
    and later: "\<forall>l'\<in>set post. opens kw l' \<longrightarrow> item (split_ws (strip l')) 1 \<noteq> Inr n"
    and res: "extract_with_keyword kw doc = Inr result"
  shows "\<exists>k\<le>length post. map_of result n = Some (join_nl (l # take k post))"
proof -
  obtain s where s: "run_loop (keyword_body kw) pre start_state = Inr s"
    using scan_total [OF kw, of pre] by (elim exE conjE)
  obtain blocks current cc ib bc where t: "s = (blocks, current, cc, ib, bc)" by (cases s) auto
  from opens_item [OF kw op] n have ne: "n \<noteq> []" by auto
  obtain s' where s': "run_loop (keyword_body kw) (split_nl doc) start_state = Inr s'"
    using scan_total [OF kw, of "split_nl doc"] by (elim exE conjE)
  obtain b' c' cc' ib' bc' where t': "s' = (b', c', cc', ib', bc')" by (cases s') auto
  let ?st = "(flush blocks current cc, Some n, [l], True, brace_delta l)"
  have k1: "keyword_body kw (blocks, current, cc, ib, bc) l = Inr ?st"
    using op n by (rule open_block)
  have k1': "run_loop (keyword_body kw) [l] (blocks, current, cc, ib, bc) = Inr ?st"
    by (simp only: run_loop.simps k1 sum.case)
  have d: "split_nl doc = pre @ ([l] @ post)" using doc by simp
  have e1: "run_loop (keyword_body kw) (pre @ ([l] @ post)) start_state
          = run_loop (keyword_body kw) ([l] @ post) (blocks, current, cc, ib, bc)"
    using s [unfolded t] by (rule run_loop_append_split)
  have e2: "run_loop (keyword_body kw) ([l] @ post) (blocks, current, cc, ib, bc)
          = run_loop (keyword_body kw) post ?st"
    using k1' by (rule run_loop_append_split)
  have 3: "run_loop (keyword_body kw) post ?st = Inr (b', c', cc', ib', bc')"
    using s' [unfolded t' d e1 e2] .
  have "[l] \<noteq> []" by simp
  from open_entry_ends [OF later ne this 3]
  obtain k where k: "k \<le> length post"
    "map_of (flush b' c' cc') n = Some (join_nl ([l] @ take k post))" by blast
  have "extract_with_keyword kw doc = Inr (flush b' c' cc')"
    using s' t' by (simp add: extract_with_keyword_def start_state_def)
  with res have "result = flush b' c' cc'" by simp
  with k show ?thesis by (intro exI [of _ k]) simp
qed

section \<open>The properties\<close>

text \<open>
  Claim C1, amended to the content the scans hold: a scan holds one content for each
  name, so a document with several blocks of one name defines the name by one of them
  only. When the scan of the primary document maps the name \<open>A\<close> to the content \<open>X\<close>
  and the scan of a secondary document maps \<open>A\<close> to another content \<open>Y\<close>, for models
  and for enums alike, the merge returns; the registry at its end maps \<open>A\<close> to \<open>X\<close> and
  not to \<open>Y\<close>; the names the section is rendered by hold \<open>A\<close> exactly once, and the
  entry rendered at the place of \<open>A\<close> is \<open>X\<close>, which is therefore a part of the written
  text; and the lines printed for that secondary document, which follow its count line
  and are as many as its blocks, hold the skipped-duplicate line of \<open>A\<close>. Nothing is
  said of the text of \<open>Y\<close> elsewhere: it can be written inside the entry of another
  name.
\<close>
theorem scanned_primary_content_wins_over_secondary:
  assumes "(extract, registry, skipped) \<in>
       {(extract_models, all_models_end, Skipped_duplicate_model),
        (extract_enums, all_enums_end, Skipped_duplicate_enum)}"
    and "extract primary = Inr primary_blocks"
    and "map_of primary_blocks A = Some X"
    and "extract content = Inr secondary_blocks"
    and "map_of secondary_blocks A = Some Y"
    and "X \<noteq> Y"
  shows "\<exists>r nm ne evs out1 out2 u v names1 names2 texts1 texts2.
           merge_contents primary (before @ (path, Some content) # after) = Inr r
         \<and> map_of (registry r) A = Some X \<and> map_of (registry r) A \<noteq> Some Y
         \<and> sorted_keys (registry r) = names1 @ A # names2
         \<and> A \<notin> set names1 \<and> A \<notin> set names2
         \<and> length texts1 = length names1 \<and> length texts2 = length names2
         \<and> section_entries (registry r) = concat (map (\<lambda>text. [text, []]) (texts1 @ X # texts2))
         \<and> X \<in> set (section_entries (registry r))
         \<and> written r = join_nl (consolidated (join_nl (header_lines primary))
                                   (all_enums_end r) (all_models_end r))
         \<and> written r = u @ X @ v
         \<and> printed r = out1 @ File_counts (path_name path) nm ne # evs @ out2
         \<and> length evs = nm + ne
         \<and> skipped A \<in> set evs"
proof -
  obtain rb where rb: "merge_contents primary before = Inr rb"
    using merge_contents_total [of primary before] by (elim exE)
  from merge_contents_state [OF rb] obtain pm pe
    where p: "extract_models primary = Inr pm" "extract_enums primary = Inr pe"
      "keeps pm (all_models_end rb)" "keeps pe (all_enums_end rb)"
    by (elim exE conjE)
  from assms(1) consider
    "extract = extract_models" "registry = all_models_end"
    | "extract = extract_enums" "registry = all_enums_end"
    by auto
  then have Xb: "map_of (registry rb) A = Some X"
  proof cases
    case 1
    with assms(2) p(1) have "primary_blocks = pm" by simp
    with 1 assms(3) p(3) show ?thesis by (auto dest: keepsD)
  next
    case 2
    with assms(2) p(2) have "primary_blocks = pe" by simp
    with 2 assms(3) p(4) show ?thesis by (auto dest: keepsD)
  qed
  from merge_skips_duplicate [OF assms(1) rb Xb assms(4,5), of path after]
  obtain r nm ne evs out1 out2 where h:
    "merge_contents primary (before @ (path, Some content) # after) = Inr r"
    "map_of (registry r) A = Some X"
    "written r = join_nl (consolidated (join_nl (header_lines primary))
                                   (all_enums_end r) (all_models_end r))"
    "printed r = out1 @ File_counts (path_name path) nm ne # evs @ out2"
    "length evs = nm + ne" "skipped A \<in> set evs"
    by (elim exE conjE)
  have "map_of (all_models_end r) A = Some X \<or> map_of (all_enums_end r) A = Some X"
    using assms(1) h(2) by auto
  from written_contains [OF this, of "join_nl (header_lines primary)"]
  obtain u v where uv: "written r = u @ X @ v"
    unfolding h(3) by (elim exE)
  have e: "X \<in> set (section_entries (registry r))" using h(2) by (rule section_entries_member)
  have n: "map_of (registry r) A \<noteq> Some Y" using h(2) assms(6) by simp
  have dist: "distinct (map fst (registry r))"
    using assms(1) merge_registries_distinct [OF h(1)] by auto
  from section_entries_at [OF dist h(2)] obtain names1 names2 texts1 texts2
    where at: "sorted_keys (registry r) = names1 @ A # names2"
      "A \<notin> set names1" "A \<notin> set names2"
      "length texts1 = length names1" "length texts2 = length names2"
      "section_entries (registry r) = concat (map (\<lambda>text. [text, []]) (texts1 @ X # texts2))"
    by (elim exE conjE)
  show ?thesis
    by (intro exI [of _ r] exI [of _ nm] exI [of _ ne] exI [of _ evs] exI [of _ out1]
          exI [of _ out2] exI [of _ u] exI [of _ v] exI [of _ names1] exI [of _ names2]
          exI [of _ texts1] exI [of _ texts2] conjI h n e uv at)
qed

theorem scanned_primary_content_wins_over_secondary_witness:
  "\<exists>r nm ne evs out1 out2 u v names1 names2 texts1 texts2.
     merge_contents ''generator g\<newline>model User {\<newline>  id Int\<newline>}\<newline>enum Role {\<newline>  ADMIN\<newline>}''
       ([] @ (''./prisma/extra.prisma'',
              Some ''model Order {\<newline>  id Int\<newline>}\<newline>model User {\<newline>  id Int\<newline>  name String\<newline>}'') # [])
       = Inr r
     \<and> map_of (all_models_end r) ''User'' = Some ''model User {\<newline>  id Int\<newline>}''
     \<and> map_of (all_models_end r) ''User'' \<noteq> Some ''model User {\<newline>  id Int\<newline>  name String\<newline>}''
     \<and> sorted_keys (all_models_end r) = names1 @ ''User'' # names2
     \<and> ''User'' \<notin> set names1 \<and> ''User'' \<notin> set names2
     \<and> length texts1 = length names1 \<and> length texts2 = length names2
     \<and> section_entries (all_models_end r)
         = concat (map (\<lambda>text. [text, []]) (texts1 @ ''model User {\<newline>  id Int\<newline>}'' # texts2))
     \<and> ''model User {\<newline>  id Int\<newline>}'' \<in> set (section_entries (all_models_end r))
     \<and> written r = join_nl (consolidated
           (join_nl (header_lines ''generator g\<newline>model User {\<newline>  id Int\<newline>}\<newline>enum Role {\<newline>  ADMIN\<newline>}''))
           (all_enums_end r) (all_models_end r))
     \<and> written r = u @ ''model User {\<newline>  id Int\<newline>}'' @ v
     \<and> printed r = out1 @ File_counts (path_name ''./prisma/extra.prisma'') nm ne # evs @ out2
     \<and> length evs = nm + ne
     \<and> Skipped_duplicate_model ''User'' \<in> set evs"
proof -
  have 1: "(extract_models, all_models_end, Skipped_duplicate_model) \<in>
       {(extract_models, all_models_end, Skipped_duplicate_model),
        (extract_enums, all_enums_end, Skipped_duplicate_enum)}" by simp
  have 2: "extract_models ''generator g\<newline>model User {\<newline>  id Int\<newline>}\<newline>enum Role {\<newline>  ADMIN\<newline>}''
            = Inr [(''User'', ''model User {\<newline>  id Int\<newline>}'')]"
    by (simp add: extract_models_def eval_defs)
  have 3: "map_of [(''User'', ''model User {\<newline>  id Int\<newline>}'')] ''User''
            = Some ''model User {\<newline>  id Int\<newline>}''" by simp
  have 4: "extract_models ''model Order {\<newline>  id Int\<newline>}\<newline>model User {\<newline>  id Int\<newline>  name String\<newline>}''
            = Inr [(''Order'', ''model Order {\<newline>  id Int\<newline>}''),
                   (''User'', ''model User {\<newline>  id Int\<newline>  name String\<newline>}'')]"
    by (simp add: extract_models_def eval_defs)
  have 5: "map_of [(''Order'', ''model Order {\<newline>  id Int\<newline>}''),
                   (''User'', ''model User {\<newline>  id Int\<newline>  name String\<newline>}'')] ''User''
            = Some ''model User {\<newline>  id Int\<newline>  name String\<newline>}''" by simp
  have 6: "''model User {\<newline>  id Int\<newline>}'' \<noteq> ''model User {\<newline>  id Int\<newline>  name String\<newline>}''" by simp
  show ?thesis
    using scanned_primary_content_wins_over_secondary [OF 1 2 3 4 5 6] .
qed

theorem primary_defining_a_name_twice_counterexample:
  "run_loop models_body [''model A {'', ''  x Int'', ''}''] start_state
     = Inr ([(''A'', ''model A {\<newline>  x Int\<newline>}'')], None, [], False, 0)
   \<and> (\<exists>r. merge_schemas
          (\<lambda>p. if p = main_schema_path
                  then Some ''model A {\<newline>  x Int\<newline>}\<newline>model A {\<newline>  z Int\<newline>}''
                else if p = ''./prisma/schema-hipaa-compliance.prisma''
                  then Some ''model A {\<newline>  y Int\<newline>}''
                else None) = Inr r
        \<and> all_models_end r = [(''A'', ''model A {\<newline>  z Int\<newline>}'')]
        \<and> all_enums_end r = []
        \<and> written r = join_nl [[], [], banner, ''// ENUMS'', banner, [],
                               [], banner, ''// MODELS'', banner, [],
                               ''model A {'', ''  z Int'', ''}'', []]
        \<and> printed r =
            [Main_schema_has 1 0,
             Warning_not_found ''./prisma/schema-medical-standardization.prisma'',
             Warning_not_found ''./prisma/schema-athenahealth-eclinicalworks.prisma'',
             File_counts ''schema-hipaa-compliance.prisma'' 1 0,
             Skipped_duplicate_model ''A'',
             Warning_not_found ''./prisma/schema-hipaa-additional.prisma'',
             Warning_not_found ''./prisma/schema-compliance-additions.prisma'',
             Consolidated_written ''prisma/schema-consolidated.prisma'',
             Total 1 0])
   \<and> (\<exists>r. merge_schemas
          (\<lambda>p. if p = main_schema_path
                  then Some ''model A {\<newline>  x Int\<newline>}''
                else if p = ''./prisma/schema-hipaa-compliance.prisma''
                  then Some ''enum E {}\<newline>model A {\<newline>  y Int\<newline>}''
                else None) = Inr r
        \<and> all_models_end r = [(''A'', ''model A {\<newline>  x Int\<newline>}'')]
        \<and> all_enums_end r = [(''E'', ''enum E {}\<newline>model A {\<newline>  y Int\<newline>}'')]
        \<and> written r = join_nl [[], [], banner, ''// ENUMS'', banner, [],
                               ''enum E {}'', ''model A {'', ''  y Int'', ''}'', [],
                               [], banner, ''// MODELS'', banner, [],
                               ''model A {'', ''  x Int'', ''}'', []])"
proof -
  let ?X = "''model A {\<newline>  x Int\<newline>}''"
  let ?Y = "''model A {\<newline>  y Int\<newline>}''"
  let ?Z = "''model A {\<newline>  z Int\<newline>}''"
  let ?D1 = "''model A {\<newline>  x Int\<newline>}\<newline>model A {\<newline>  z Int\<newline>}''"
  let ?S2 = "''enum E {}\<newline>model A {\<newline>  y Int\<newline>}''"
  have p: "path_str output_path = ''prisma/schema-consolidated.prisma''"
    by (simp add: path_str_def output_path_def startswith_def)
  have s: "run_loop models_body [''model A {'', ''  x Int'', ''}''] start_state
     = Inr ([(''A'', ?X)], None, [], False, 0)"
    by (simp add: eval_defs)
  have mD1: "extract_models ?D1 = Inr [(''A'', ?Z)]" by (simp add: extract_models_def eval_defs)
  have eD1: "extract_enums ?D1 = Inr []" by (simp add: extract_enums_def eval_defs)
  have mX: "extract_models ?X = Inr [(''A'', ?X)]" by (simp add: extract_models_def eval_defs)
  have eX: "extract_enums ?X = Inr []" by (simp add: extract_enums_def eval_defs)
  have mY: "extract_models ?Y = Inr [(''A'', ?Y)]" by (simp add: extract_models_def eval_defs)
  have eY: "extract_enums ?Y = Inr []" by (simp add: extract_enums_def eval_defs)
  have mS2: "extract_models ?S2 = Inr [(''A'', ?Y)]" by (simp add: extract_models_def eval_defs)
  have eS2: "extract_enums ?S2 = Inr [(''E'', ?S2)]" by (simp add: extract_enums_def eval_defs)
  have hD1: "header_lines ?D1 = []" by (simp add: header_lines_def is_block_start_def eval_defs)
  have hX: "header_lines ?X = []" by (simp add: header_lines_def is_block_start_def eval_defs)
  have n: "path_name ''./prisma/schema-hipaa-compliance.prisma'' = ''schema-hipaa-compliance.prisma''"
    by (simp add: path_name_def)
  \<comment> \<open>the first run\<close>
  define files1 where "files1 = (\<lambda>p. if p = main_schema_path then Some ?D1
      else if p = ''./prisma/schema-hipaa-compliance.prisma'' then Some ?Y else None)"
  have f1: "files1 main_schema_path = Some ?D1" by (simp add: files1_def)
  have a1: "map (\<lambda>p. (p, files1 p)) additional_schemas =
      [(''./prisma/schema-medical-standardization.prisma'', None),
       (''./prisma/schema-athenahealth-eclinicalworks.prisma'', None),
       (''./prisma/schema-hipaa-compliance.prisma'', Some ?Y),
       (''./prisma/schema-hipaa-additional.prisma'', None),
       (''./prisma/schema-compliance-additions.prisma'', None)]"
    by (simp add: files1_def additional_schemas_def main_schema_path_def)
  have l1: "run_loop merge_body (map (\<lambda>p. (p, files1 p)) additional_schemas)
             ([(''A'', ?Z)], [], [Main_schema_has (length [(''A'', ?Z)]) (length ([]::dict))])
           = Inr ([(''A'', ?Z)], [],
              [Main_schema_has 1 0,
               Warning_not_found ''./prisma/schema-medical-standardization.prisma'',
               Warning_not_found ''./prisma/schema-athenahealth-eclinicalworks.prisma'',
               File_counts ''schema-hipaa-compliance.prisma'' 1 0,
               Skipped_duplicate_model ''A'',
               Warning_not_found ''./prisma/schema-hipaa-additional.prisma'',
               Warning_not_found ''./prisma/schema-compliance-additions.prisma''])"
    unfolding a1 by (simp add: mY eY n)
  have w1: "join_nl (consolidated (join_nl (header_lines ?D1)) [] [(''A'', ?Z)])
          = join_nl [[], [], banner, ''// ENUMS'', banner, [],
                               [], banner, ''// MODELS'', banner, [],
                               ''model A {'', ''  z Int'', ''}'', []]"
    unfolding hD1 by (simp add: consolidated_def section_entries_def sorted_keys_def)
  have "merge_schemas files1 = merge_contents ?D1 (map (\<lambda>p. (p, files1 p)) additional_schemas)"
    using merge_schemas_returns [of files1 ?D1, OF f1] by (rule conjunct1)
  also note merge_contents_unfold [OF mD1 eD1 l1]
  finally obtain r1 where r1: "merge_schemas files1 = Inr r1"
    and r1m: "all_models_end r1 = [(''A'', ?Z)]" and r1e: "all_enums_end r1 = []"
    and r1w: "written r1 = join_nl (consolidated (join_nl (header_lines ?D1)) [] [(''A'', ?Z)])"
    and r1p: "printed r1 =
            [Main_schema_has 1 0,
             Warning_not_found ''./prisma/schema-medical-standardization.prisma'',
             Warning_not_found ''./prisma/schema-athenahealth-eclinicalworks.prisma'',
             File_counts ''schema-hipaa-compliance.prisma'' 1 0,
             Skipped_duplicate_model ''A'',
             Warning_not_found ''./prisma/schema-hipaa-additional.prisma'',
             Warning_not_found ''./prisma/schema-compliance-additions.prisma'',
             Consolidated_written ''prisma/schema-consolidated.prisma'',
             Total 1 0]"
    by (simp add: p)
  have R1: "\<exists>r. merge_schemas files1 = Inr r
        \<and> all_models_end r = [(''A'', ?Z)]
        \<and> all_enums_end r = []
        \<and> written r = join_nl [[], [], banner, ''// ENUMS'', banner, [],
                               [], banner, ''// MODELS'', banner, [],
                               ''model A {'', ''  z Int'', ''}'', []]
        \<and> printed r =
            [Main_schema_has 1 0,
             Warning_not_found ''./prisma/schema-medical-standardization.prisma'',
             Warning_not_found ''./prisma/schema-athenahealth-eclinicalworks.prisma'',
             File_counts ''schema-hipaa-compliance.prisma'' 1 0,
             Skipped_duplicate_model ''A'',
             Warning_not_found ''./prisma/schema-hipaa-additional.prisma'',
             Warning_not_found ''./prisma/schema-compliance-additions.prisma'',
             Consolidated_written ''prisma/schema-consolidated.prisma'',
             Total 1 0]"
    by (intro exI [of _ r1] conjI r1 r1m r1e r1p trans [OF r1w w1])
  \<comment> \<open>the second run\<close>
  define files2 where "files2 = (\<lambda>p. if p = main_schema_path then Some ?X
      else if p = ''./prisma/schema-hipaa-compliance.prisma'' then Some ?S2 else None)"
  have f2: "files2 main_schema_path = Some ?X" by (simp add: files2_def)
  have a2: "map (\<lambda>p. (p, files2 p)) additional_schemas =
      [(''./prisma/schema-medical-standardization.prisma'', None),
       (''./prisma/schema-athenahealth-eclinicalworks.prisma'', None),
       (''./prisma/schema-hipaa-compliance.prisma'', Some ?S2),
       (''./prisma/schema-hipaa-additional.prisma'', None),
       (''./prisma/schema-compliance-additions.prisma'', None)]"
    by (simp add: files2_def additional_schemas_def main_schema_path_def)
  obtain out2 where l2: "run_loop merge_body (map (\<lambda>p. (p, files2 p)) additional_schemas)
             ([(''A'', ?X)], [], [Main_schema_has (length [(''A'', ?X)]) (length ([]::dict))])
           = Inr ([(''A'', ?X)], [(''E'', ?S2)], out2)"
    unfolding a2 by (simp add: mS2 eS2 n)
  have w2: "join_nl (consolidated (join_nl (header_lines ?X)) [(''E'', ?S2)] [(''A'', ?X)])
          = join_nl [[], [], banner, ''// ENUMS'', banner, [],
                               ''enum E {}'', ''model A {'', ''  y Int'', ''}'', [],
                               [], banner, ''// MODELS'', banner, [],
                               ''model A {'', ''  x Int'', ''}'', []]"
    unfolding hX by (simp add: consolidated_def section_entries_def sorted_keys_def)
  have "merge_schemas files2 = merge_contents ?X (map (\<lambda>p. (p, files2 p)) additional_schemas)"
    using merge_schemas_returns [of files2 ?X, OF f2] by (rule conjunct1)
  also note merge_contents_unfold [OF mX eX l2]
  finally obtain r2 where r2: "merge_schemas files2 = Inr r2"
    and r2m: "all_models_end r2 = [(''A'', ?X)]" and r2e: "all_enums_end r2 = [(''E'', ?S2)]"
    and r2w: "written r2 = join_nl (consolidated (join_nl (header_lines ?X)) [(''E'', ?S2)] [(''A'', ?X)])"
    by simp
  have R2: "\<exists>r. merge_schemas files2 = Inr r
        \<and> all_models_end r = [(''A'', ?X)]
        \<and> all_enums_end r = [(''E'', ?S2)]
        \<and> written r = join_nl [[], [], banner, ''// ENUMS'', banner, [],
                               ''enum E {}'', ''model A {'', ''  y Int'', ''}'', [],
                               [], banner, ''// MODELS'', banner, [],
                               ''model A {'', ''  x Int'', ''}'', []]"
    by (intro exI [of _ r2] conjI r2 r2m r2e trans [OF r2w w2])
  from s R1 [unfolded files1_def] R2 [unfolded files2_def] show ?thesis by (intro conjI)
qed

text \<open>
  Claim C2: for every main schema and every list of additional documents the merge
  returns, the written text is rendered from the header and the two registries, and
  the names each section is rendered by are strictly ascending in the order of strings
  (code point by code point, a proper prefix before its extensions); a section is the
  texts the registry holds under these names, in this order, an empty entry after
  each.
\<close>
theorem sections_in_ascending_order_of_name:
  "\<exists>r enum_texts model_texts.
     merge_contents main_content additional = Inr r
     \<and> written r = join_nl (consolidated (join_nl (header_lines main_content))
                               (all_enums_end r) (all_models_end r))
     \<and> sorted_wrt (<) (sorted_keys (all_enums_end r))
     \<and> map (map_of (all_enums_end r)) (sorted_keys (all_enums_end r)) = map Some enum_texts
     \<and> section_entries (all_enums_end r) = concat (map (\<lambda>text. [text, []]) enum_texts)
     \<and> sorted_wrt (<) (sorted_keys (all_models_end r))
     \<and> map (map_of (all_models_end r)) (sorted_keys (all_models_end r)) = map Some model_texts
     \<and> section_entries (all_models_end r) = concat (map (\<lambda>text. [text, []]) model_texts)"
proof -
  obtain r where r: "merge_contents main_content additional = Inr r"
    using merge_contents_total [of main_content additional] by (elim exE)
  have w: "written r = join_nl (consolidated (join_nl (header_lines main_content))
                               (all_enums_end r) (all_models_end r))"
    using r by (auto simp: merge_contents_def Let_def split: sum.splits prod.splits)
  note d = merge_registries_distinct [OF r]
  obtain enum_texts where e:
    "map (map_of (all_enums_end r)) (sorted_keys (all_enums_end r)) = map Some enum_texts"
    "section_entries (all_enums_end r) = concat (map (\<lambda>text. [text, []]) enum_texts)"
    using section_entries_texts [of "all_enums_end r"] by (elim exE conjE)
  obtain model_texts where m:
    "map (map_of (all_models_end r)) (sorted_keys (all_models_end r)) = map Some model_texts"
    "section_entries (all_models_end r) = concat (map (\<lambda>text. [text, []]) model_texts)"
    using section_entries_texts [of "all_models_end r"] by (elim exE conjE)
  show ?thesis
    by (intro exI [of _ r] exI [of _ enum_texts] exI [of _ model_texts] conjI r w e m
          sorted_keys_strict d)
qed

text \<open>
  Claim C3, amended to blocks of different documents: the first document that has a
  name wins, the main schema being the first and the additional documents following in
  the order of the loop. When the scan of an additional document that exists has a
  block named \<open>A\<close> with content \<open>Y\<close>, for models and for enums alike, the merge returns,
  and the registry at its end maps \<open>A\<close> to what the first of all documents whose scan
  has \<open>A\<close> holds under it. If a document before this one has \<open>A\<close>, with content \<open>X\<close> in
  the first such document, the registry ends with \<open>X\<close> under \<open>A\<close> and the lines printed
  for this document hold the skipped-duplicate line of \<open>A\<close>; if none has, the registry
  ends with \<open>Y\<close> under \<open>A\<close> and these lines hold the added line of \<open>A\<close>. Inside one
  document nothing is skipped: the names of each of its two scans are distinct, and the
  lines printed for the document after its count line are as many as these names.
\<close>
theorem block_of_later_document_is_added_or_skipped:
  assumes "(extract, registry, added, skipped) \<in>
       {(extract_models, all_models_end, Added_model, Skipped_duplicate_model),
        (extract_enums, all_enums_end, Added_enum, Skipped_duplicate_enum)}"
    and "extract content = Inr blocks"
    and "map_of blocks A = Some Y"
  shows "\<exists>r models enums evs out1 out2.
           merge_contents main_content (before @ (path, Some content) # after) = Inr r
         \<and> map_of (registry r) A
             = first_seen extract
                 (main_content # texts_present (before @ (path, Some content) # after)) A
         \<and> extract_models content = Inr models \<and> extract_enums content = Inr enums
         \<and> distinct (map fst models) \<and> distinct (map fst enums)
         \<and> printed r = out1 @ File_counts (path_name path) (length models) (length enums)
                             # evs @ out2
         \<and> length evs = length models + length enums
         \<and> (case first_seen extract (main_content # texts_present before) A of
               Some X \<Rightarrow> map_of (registry r) A = Some X \<and> skipped A \<in> set evs
             | None \<Rightarrow> map_of (registry r) A = Some Y \<and> added A \<in> set evs)"
proof -
  from merge_adds_or_skips [OF assms, of main_content before path after]
  obtain r models enums evs out1 out2 where h:
    "merge_contents main_content (before @ (path, Some content) # after) = Inr r"
    "extract_models content = Inr models" "extract_enums content = Inr enums"
    "printed r = out1 @ File_counts (path_name path) (length models) (length enums)
                   # evs @ out2"
    "length evs = length models + length enums"
    "case first_seen extract (main_content # texts_present before) A of
       Some X \<Rightarrow> map_of (registry r) A = Some X \<and> skipped A \<in> set evs
     | None \<Rightarrow> map_of (registry r) A = Some Y \<and> added A \<in> set evs"
    by (elim exE conjE)
  have f: "map_of (registry r) A
             = first_seen extract
                 (main_content # texts_present (before @ (path, Some content) # after)) A"
    using assms(1) merge_first_seen [OF h(1), of A] by auto
  have dm: "distinct (map fst models)" using h(2) by (rule extract_models_distinct)
  have de: "distinct (map fst enums)" using h(3) by (rule extract_enums_distinct)
  show ?thesis
    by (intro exI [of _ r] exI [of _ models] exI [of _ enums] exI [of _ evs] exI [of _ out1]
          exI [of _ out2] conjI h(1) f h(2,3) dm de h(4,5,6))
qed

theorem block_of_later_document_is_added_or_skipped_witness:
  "(\<exists>r evs out1 out2.
      merge_contents ''model User {\<newline>  id Int\<newline>}''
        ([] @ (''./prisma/one.prisma'', Some ''enum Role {\<newline>  ADMIN\<newline>}'')
            # [(''./prisma/two.prisma'', Some ''enum Role {\<newline>  USER\<newline>}'')]) = Inr r
    \<and> map_of (all_enums_end r) ''Role'' = Some ''enum Role {\<newline>  ADMIN\<newline>}''
    \<and> printed r = out1 @ File_counts (path_name ''./prisma/one.prisma'') 0 1 # evs @ out2
    \<and> length evs = 1
    \<and> Added_enum ''Role'' \<in> set evs)
   \<and> (\<exists>r evs out1 out2.
      merge_contents ''model User {\<newline>  id Int\<newline>}''
        ([(''./prisma/one.prisma'', Some ''enum Role {\<newline>  ADMIN\<newline>}'')]
            @ (''./prisma/two.prisma'', Some ''enum Role {\<newline>  USER\<newline>}'') # []) = Inr r
    \<and> map_of (all_enums_end r) ''Role'' = Some ''enum Role {\<newline>  ADMIN\<newline>}''
    \<and> printed r = out1 @ File_counts (path_name ''./prisma/two.prisma'') 0 1 # evs @ out2
    \<and> length evs = 1
    \<and> Skipped_duplicate_enum ''Role'' \<in> set evs)"
proof -
  let ?M = "''model User {\<newline>  id Int\<newline>}''"
  let ?S1 = "''enum Role {\<newline>  ADMIN\<newline>}''"
  let ?S2 = "''enum Role {\<newline>  USER\<newline>}''"
  have k: "(extract_enums, all_enums_end, Added_enum, Skipped_duplicate_enum) \<in>
       {(extract_models, all_models_end, Added_model, Skipped_duplicate_model),
        (extract_enums, all_enums_end, Added_enum, Skipped_duplicate_enum)}" by simp
  have eM: "extract_enums ?M = Inr []" by (simp add: extract_enums_def eval_defs)
  have e1: "extract_enums ?S1 = Inr [(''Role'', ?S1)]"
    by (simp add: extract_enums_def eval_defs)
  have e2: "extract_enums ?S2 = Inr [(''Role'', ?S2)]"
    by (simp add: extract_enums_def eval_defs)
  have m1: "extract_models ?S1 = Inr []" by (simp add: extract_models_def eval_defs)
  have m2: "extract_models ?S2 = Inr []" by (simp add: extract_models_def eval_defs)
  have y1: "map_of [(''Role'', ?S1)] ''Role'' = Some ?S1" by simp
  have y2: "map_of [(''Role'', ?S2)] ''Role'' = Some ?S2" by simp
  have f1: "first_seen extract_enums (?M # texts_present []) ''Role'' = None"
    by (simp add: eM)
  have f2: "first_seen extract_enums
              (?M # texts_present [(''./prisma/one.prisma'', Some ?S1)]) ''Role'' = Some ?S1"
    by (simp add: eM e1)
  from block_of_later_document_is_added_or_skipped
    [OF k e1 y1, of ?M "[]" "''./prisma/one.prisma''" "[(''./prisma/two.prisma'', Some ?S2)]"]
  obtain r models enums evs out1 out2 where a:
    "merge_contents ?M ([] @ (''./prisma/one.prisma'', Some ?S1)
            # [(''./prisma/two.prisma'', Some ?S2)]) = Inr r"
    "extract_models ?S1 = Inr models" "extract_enums ?S1 = Inr enums"
    "printed r = out1 @ File_counts (path_name ''./prisma/one.prisma'')
                          (length models) (length enums) # evs @ out2"
    "length evs = length models + length enums"
    "case first_seen extract_enums (?M # texts_present []) ''Role'' of
       Some X \<Rightarrow> map_of (all_enums_end r) ''Role'' = Some X \<and> Skipped_duplicate_enum ''Role'' \<in> set evs
     | None \<Rightarrow> map_of (all_enums_end r) ''Role'' = Some ?S1 \<and> Added_enum ''Role'' \<in> set evs"
    by (elim exE conjE)
  from a(2) m1 have am: "models = []" by simp
  from a(3) e1 have ae: "enums = [(''Role'', ?S1)]" by simp
  from a(4,5) have a45:
    "printed r = out1 @ File_counts (path_name ''./prisma/one.prisma'') 0 1 # evs @ out2"
    "length evs = 1"
    unfolding am ae by simp_all
  from a(6) have a': "map_of (all_enums_end r) ''Role'' = Some ?S1" "Added_enum ''Role'' \<in> set evs"
    unfolding f1 by simp_all
  have A: "\<exists>r evs out1 out2.
      merge_contents ?M ([] @ (''./prisma/one.prisma'', Some ?S1)
            # [(''./prisma/two.prisma'', Some ?S2)]) = Inr r
    \<and> map_of (all_enums_end r) ''Role'' = Some ?S1
    \<and> printed r = out1 @ File_counts (path_name ''./prisma/one.prisma'') 0 1 # evs @ out2
    \<and> length evs = 1
    \<and> Added_enum ''Role'' \<in> set evs"
    by (intro exI [of _ r] exI [of _ evs] exI [of _ out1] exI [of _ out2] conjI a(1) a45 a')
  from block_of_later_document_is_added_or_skipped
    [OF k e2 y2, of ?M "[(''./prisma/one.prisma'', Some ?S1)]" "''./prisma/two.prisma''" "[]"]
  obtain r models enums evs out1 out2 where b:
    "merge_contents ?M ([(''./prisma/one.prisma'', Some ?S1)]
            @ (''./prisma/two.prisma'', Some ?S2) # []) = Inr r"
    "extract_models ?S2 = Inr models" "extract_enums ?S2 = Inr enums"
    "printed r = out1 @ File_counts (path_name ''./prisma/two.prisma'')
                          (length models) (length enums) # evs @ out2"
    "length evs = length models + length enums"
    "case first_seen extract_enums (?M # texts_present [(''./prisma/one.prisma'', Some ?S1)]) ''Role'' of
       Some X \<Rightarrow> map_of (all_enums_end r) ''Role'' = Some X \<and> Skipped_duplicate_enum ''Role'' \<in> set evs
     | None \<Rightarrow> map_of (all_enums_end r) ''Role'' = Some ?S2 \<and> Added_enum ''Role'' \<in> set evs"
    by (elim exE conjE)
  from b(2) m2 have bm: "models = []" by simp
  from b(3) e2 have be: "enums = [(''Role'', ?S2)]" by simp
  from b(4,5) have b45:
    "printed r = out1 @ File_counts (path_name ''./prisma/two.prisma'') 0 1 # evs @ out2"
    "length evs = 1"
    unfolding bm be by simp_all
  from b(6) have b': "map_of (all_enums_end r) ''Role'' = Some ?S1"
    "Skipped_duplicate_enum ''Role'' \<in> set evs"
    unfolding f2 by simp_all
  have B: "\<exists>r evs out1 out2.
      merge_contents ?M ([(''./prisma/one.prisma'', Some ?S1)]
            @ (''./prisma/two.prisma'', Some ?S2) # []) = Inr r
    \<and> map_of (all_enums_end r) ''Role'' = Some ?S1
    \<and> printed r = out1 @ File_counts (path_name ''./prisma/two.prisma'') 0 1 # evs @ out2
    \<and> length evs = 1
    \<and> Skipped_duplicate_enum ''Role'' \<in> set evs"
    by (intro exI [of _ r] exI [of _ evs] exI [of _ out1] exI [of _ out2] conjI b(1) b45 b')
  from A B show ?thesis by (rule conjI)
qed

theorem duplicate_within_one_document_keeps_last_counterexample:
  "run_loop models_body [''model A {'', ''  x Int'', ''}''] start_state
     = Inr ([(''A'', ''model A {\<newline>  x Int\<newline>}'')], None, [], False, 0)
   \<and> (\<exists>r. merge_schemas
          (\<lambda>p. if p = main_schema_path
               then Some ''model A {\<newline>  x Int\<newline>}\<newline>model A {\<newline>  y Int\<newline>}'' else None) = Inr r
        \<and> all_models_end r = [(''A'', ''model A {\<newline>  y Int\<newline>}'')]
        \<and> printed r =
            [Main_schema_has 1 0,
             Warning_not_found ''./prisma/schema-medical-standardization.prisma'',
             Warning_not_found ''./prisma/schema-athenahealth-eclinicalworks.prisma'',
             Warning_not_found ''./prisma/schema-hipaa-compliance.prisma'',
             Warning_not_found ''./prisma/schema-hipaa-additional.prisma'',
             Warning_not_found ''./prisma/schema-compliance-additions.prisma'',
             Consolidated_written ''prisma/schema-consolidated.prisma'',
             Total 1 0])"
proof -
  let ?D = "''model A {\<newline>  x Int\<newline>}\<newline>model A {\<newline>  y Int\<newline>}''"
  define files where "files = (\<lambda>p. if p = main_schema_path then Some ?D else None)"
  have s: "run_loop models_body [''model A {'', ''  x Int'', ''}''] start_state
     = Inr ([(''A'', ''model A {\<newline>  x Int\<newline>}'')], None, [], False, 0)"
    by (simp add: eval_defs)
  have m: "extract_models ?D = Inr [(''A'', ''model A {\<newline>  y Int\<newline>}'')]"
    by (simp add: extract_models_def eval_defs)
  have e: "extract_enums ?D = Inr []"
    by (simp add: extract_enums_def eval_defs)
  have a: "map (\<lambda>p. (p, files p)) additional_schemas =
      [(''./prisma/schema-medical-standardization.prisma'', None),
       (''./prisma/schema-athenahealth-eclinicalworks.prisma'', None),
       (''./prisma/schema-hipaa-compliance.prisma'', None),
       (''./prisma/schema-hipaa-additional.prisma'', None),
       (''./prisma/schema-compliance-additions.prisma'', None)]"
    by (simp add: files_def additional_schemas_def main_schema_path_def)
  have l: "run_loop merge_body (map (\<lambda>p. (p, files p)) additional_schemas)
             ([(''A'', ''model A {\<newline>  y Int\<newline>}'')], [],
              [Main_schema_has (length [(''A'', ''model A {\<newline>  y Int\<newline>}'')]) (length ([]::dict))])
           = Inr ([(''A'', ''model A {\<newline>  y Int\<newline>}'')], [],
              [Main_schema_has 1 0,
               Warning_not_found ''./prisma/schema-medical-standardization.prisma'',
               Warning_not_found ''./prisma/schema-athenahealth-eclinicalworks.prisma'',
               Warning_not_found ''./prisma/schema-hipaa-compliance.prisma'',
               Warning_not_found ''./prisma/schema-hipaa-additional.prisma'',
               Warning_not_found ''./prisma/schema-compliance-additions.prisma''])"
    unfolding a by simp
  have f: "files main_schema_path = Some ?D" by (simp add: files_def)
  have p: "path_str output_path = ''prisma/schema-consolidated.prisma''"
    by (simp add: path_str_def output_path_def startswith_def)
  have "merge_schemas files = merge_contents ?D (map (\<lambda>p. (p, files p)) additional_schemas)"
    using merge_schemas_returns [of files ?D, OF f] by (rule conjunct1)
  also note merge_contents_unfold [OF m e l]
  finally obtain r where r: "merge_schemas files = Inr r"
    and 1: "all_models_end r = [(''A'', ''model A {\<newline>  y Int\<newline>}'')]"
    and 2: "printed r =
            [Main_schema_has 1 0,
             Warning_not_found ''./prisma/schema-medical-standardization.prisma'',
             Warning_not_found ''./prisma/schema-athenahealth-eclinicalworks.prisma'',
             Warning_not_found ''./prisma/schema-hipaa-compliance.prisma'',
             Warning_not_found ''./prisma/schema-hipaa-additional.prisma'',
             Warning_not_found ''./prisma/schema-compliance-additions.prisma'',
             Consolidated_written ''prisma/schema-consolidated.prisma'',
             Total 1 0]"
    by (simp add: p)
  from r 1 2 have "\<exists>r. merge_schemas files = Inr r
        \<and> all_models_end r = [(''A'', ''model A {\<newline>  y Int\<newline>}'')]
        \<and> printed r =
            [Main_schema_has 1 0,
             Warning_not_found ''./prisma/schema-medical-standardization.prisma'',
             Warning_not_found ''./prisma/schema-athenahealth-eclinicalworks.prisma'',
             Warning_not_found ''./prisma/schema-hipaa-compliance.prisma'',
             Warning_not_found ''./prisma/schema-hipaa-additional.prisma'',
             Warning_not_found ''./prisma/schema-compliance-additions.prisma'',
             Consolidated_written ''prisma/schema-consolidated.prisma'',
             Total 1 0]"
    by (intro exI [of _ r] conjI)
  from s this [unfolded files_def] show ?thesis by (rule conjI)
qed

text \<open>
  Claim C4, amended: merging the written text again, alone, returns, but never with the
  same text. The header of the second merge is every line of the text before its
  first opening line: the lines of the first header, the lines of the ENUMS banner, and
  what else precedes the first block; the second text is this header followed by the
  banners and the sections. When every block of the first registries closed normally
  and holds no opening line of the other keyword, the second merge finds the same
  blocks under the same names and renders the same sections, so that the second text
  is the first with the longer header.
\<close>
theorem merging_the_output_again_grows_the_header:
  "\<exists>r r' rest.
     merge_contents main_content additional = Inr r
   \<and> merge_contents (written r) [] = Inr r'
   \<and> header_lines (written r)
        = split_nl (join_nl (header_lines main_content)) @ [[], banner, ''// ENUMS'', banner, []] @ rest
   \<and> written r' = join_nl (consolidated (join_nl (header_lines (written r)))
                               (all_enums_end r') (all_models_end r'))
   \<and> written r' \<noteq> written r
   \<and> ((\<forall>e\<in>set (all_models_end r). well_formed_block ''model '' ''enum '' e)
        \<and> (\<forall>e\<in>set (all_enums_end r). well_formed_block ''enum '' ''model '' e)
       \<longrightarrow> map_of (all_models_end r') = map_of (all_models_end r)
         \<and> map_of (all_enums_end r') = map_of (all_enums_end r)
         \<and> section_entries (all_models_end r') = section_entries (all_models_end r)
         \<and> section_entries (all_enums_end r') = section_entries (all_enums_end r)
         \<and> written r' = join_nl (consolidated (join_nl (header_lines (written r)))
                                     (all_enums_end r) (all_models_end r)))"
proof -
  obtain r where r: "merge_contents main_content additional = Inr r"
    using merge_contents_total [of main_content additional] by (elim exE)
  obtain r' where r': "merge_contents (written r) [] = Inr r'"
    using merge_contents_total [of "written r" "[]"] by (elim exE)
  have w: "written r = join_nl (consolidated (join_nl (header_lines main_content))
                               (all_enums_end r) (all_models_end r))"
    using r by (auto simp: merge_contents_def Let_def split: sum.splits prod.splits)
  have w': "written r' = join_nl (consolidated (join_nl (header_lines (written r)))
                               (all_enums_end r') (all_models_end r'))"
    using r' by (auto simp: merge_contents_def Let_def split: sum.splits prod.splits)
  obtain rest where h: "header_lines (written r)
        = split_nl (join_nl (header_lines main_content)) @ [[], banner, ''// ENUMS'', banner, []] @ rest"
    using header_lines_of_output [of main_content "all_enums_end r" "all_models_end r"]
    unfolding w by (elim exE)
  have d: "written r' \<noteq> written r" using r' by (rule remerge_differs)
  note dist = merge_registries_distinct [OF r]
  have k: "(\<forall>e\<in>set (all_models_end r). well_formed_block ''model '' ''enum '' e)
        \<and> (\<forall>e\<in>set (all_enums_end r). well_formed_block ''enum '' ''model '' e)
       \<longrightarrow> map_of (all_models_end r') = map_of (all_models_end r)
         \<and> map_of (all_enums_end r') = map_of (all_enums_end r)
         \<and> section_entries (all_models_end r') = section_entries (all_models_end r)
         \<and> section_entries (all_enums_end r') = section_entries (all_enums_end r)
         \<and> written r' = join_nl (consolidated (join_nl (header_lines (written r)))
                                     (all_enums_end r) (all_models_end r))"
  proof
    assume a: "(\<forall>e\<in>set (all_models_end r). well_formed_block ''model '' ''enum '' e)
        \<and> (\<forall>e\<in>set (all_enums_end r). well_formed_block ''enum '' ''model '' e)"
    then have wm: "\<forall>e\<in>set (all_models_end r). well_formed_block ''model '' ''enum '' e"
      and we: "\<forall>e\<in>set (all_enums_end r). well_formed_block ''enum '' ''model '' e"
      by simp_all
    note eq = remerge_well_formed [OF r r' wm we]
    show "map_of (all_models_end r') = map_of (all_models_end r)
         \<and> map_of (all_enums_end r') = map_of (all_enums_end r)
         \<and> section_entries (all_models_end r') = section_entries (all_models_end r)
         \<and> section_entries (all_enums_end r') = section_entries (all_enums_end r)
         \<and> written r' = join_nl (consolidated (join_nl (header_lines (written r)))
                                     (all_enums_end r) (all_models_end r))"
      unfolding w' eq using dist
      by (simp add: rescanned_lookup rescanned_entries consolidated_def)
  qed
  show ?thesis
    by (intro exI [of _ r] exI [of _ r'] exI [of _ rest] conjI r r' h w' d k)
qed

theorem merging_the_output_again_grows_the_header_witness:
  "\<exists>r r'.
     merge_contents ''generator g\<newline>model B {\<newline>  id Int\<newline>}\<newline>enum E {\<newline>  X\<newline>}'' [] = Inr r
   \<and> merge_contents (written r) [] = Inr r'
   \<and> written r' \<noteq> written r
   \<and> map_of (all_models_end r') = map_of (all_models_end r)
   \<and> map_of (all_enums_end r') = map_of (all_enums_end r)
   \<and> section_entries (all_models_end r') = section_entries (all_models_end r)
   \<and> section_entries (all_enums_end r') = section_entries (all_enums_end r)
   \<and> written r' = join_nl (consolidated (join_nl (header_lines (written r)))
                               (all_enums_end r) (all_models_end r))"
proof -
  let ?main = "''generator g\<newline>model B {\<newline>  id Int\<newline>}\<newline>enum E {\<newline>  X\<newline>}''"
  from merging_the_output_again_grows_the_header [of ?main "[]"]
  obtain r r' where r: "merge_contents ?main [] = Inr r"
    and r': "merge_contents (written r) [] = Inr r'"
    and d: "written r' \<noteq> written r"
    and k: "(\<forall>e\<in>set (all_models_end r). well_formed_block ''model '' ''enum '' e)
        \<and> (\<forall>e\<in>set (all_enums_end r). well_formed_block ''enum '' ''model '' e)
       \<longrightarrow> map_of (all_models_end r') = map_of (all_models_end r)
         \<and> map_of (all_enums_end r') = map_of (all_enums_end r)
         \<and> section_entries (all_models_end r') = section_entries (all_models_end r)
         \<and> section_entries (all_enums_end r') = section_entries (all_enums_end r)
         \<and> written r' = join_nl (consolidated (join_nl (header_lines (written r)))
                                     (all_enums_end r) (all_models_end r))"
    by (elim exE conjE)
  have m: "extract_models ?main = Inr [(''B'', ''model B {\<newline>  id Int\<newline>}'')]"
    by (simp add: extract_models_def eval_defs)
  have e: "extract_enums ?main = Inr [(''E'', ''enum E {\<newline>  X\<newline>}'')]"
    by (simp add: extract_enums_def eval_defs)
  have l: "run_loop merge_body [] ([(''B'', ''model B {\<newline>  id Int\<newline>}'')], [(''E'', ''enum E {\<newline>  X\<newline>}'')],
             [Main_schema_has (length [(''B'', ''model B {\<newline>  id Int\<newline>}'')])
                (length [(''E'', ''enum E {\<newline>  X\<newline>}'')])])
           = Inr ([(''B'', ''model B {\<newline>  id Int\<newline>}'')], [(''E'', ''enum E {\<newline>  X\<newline>}'')],
                  [Main_schema_has 1 1])"
    by simp
  from merge_contents_unfold [OF m e l] r
  have regs: "all_models_end r = [(''B'', ''model B {\<newline>  id Int\<newline>}'')]"
    "all_enums_end r = [(''E'', ''enum E {\<newline>  X\<newline>}'')]"
    by auto
  have wf: "(\<forall>e\<in>set (all_models_end r). well_formed_block ''model '' ''enum '' e)
        \<and> (\<forall>e\<in>set (all_enums_end r). well_formed_block ''enum '' ''model '' e)"
    unfolding regs
    by (simp add: well_formed_block_def block_span_def closed_normally_def eval_defs
          atLeastLessThanSuc numeral_2_eq_2)
  from k wf have "map_of (all_models_end r') = map_of (all_models_end r)
         \<and> map_of (all_enums_end r') = map_of (all_enums_end r)
         \<and> section_entries (all_models_end r') = section_entries (all_models_end r)
         \<and> section_entries (all_enums_end r') = section_entries (all_enums_end r)
         \<and> written r' = join_nl (consolidated (join_nl (header_lines (written r)))
                                     (all_enums_end r) (all_models_end r))"
    by (rule mp)
  with r r' d show ?thesis by blast
qed

theorem merging_the_output_again_counterexample:
  "\<exists>r r'. merge_contents ''generator g\<newline>model A {\<newline>}'' [] = Inr r
     \<and> written r = join_nl [''generator g'', [], banner, ''// ENUMS'', banner, [],
                            [], banner, ''// MODELS'', banner, [], ''model A {'', ''}'', []]
     \<and> merge_contents (written r) [] = Inr r'
     \<and> written r' = join_nl [''generator g'', [], banner, ''// ENUMS'', banner, [],
                             [], banner, ''// MODELS'', banner, [],
                             [], banner, ''// ENUMS'', banner, [],
                             [], banner, ''// MODELS'', banner, [], ''model A {'', ''}'', []]
     \<and> written r' \<noteq> written r"
proof -
  define T where "T = join_nl [''generator g'', [], banner, ''// ENUMS'', banner, [],
                     [], banner, ''// MODELS'', banner, [], ''model A {'', ''}'', []]"
  define T' where "T' = join_nl [''generator g'', [], banner, ''// ENUMS'', banner, [],
                             [], banner, ''// MODELS'', banner, [],
                             [], banner, ''// ENUMS'', banner, [],
                             [], banner, ''// MODELS'', banner, [], ''model A {'', ''}'', []]"
  have m: "extract_models ''generator g\<newline>model A {\<newline>}'' = Inr [(''A'', ''model A {\<newline>}'')]"
    by (simp add: extract_models_def eval_defs)
  have e: "extract_enums ''generator g\<newline>model A {\<newline>}'' = Inr []"
    by (simp add: extract_enums_def eval_defs)
  have l: "run_loop merge_body [] ([(''A'', ''model A {\<newline>}'')], [],
             [Main_schema_has (length [(''A'', ''model A {\<newline>}'')]) (length ([]::dict))])
           = Inr ([(''A'', ''model A {\<newline>}'')], [], [Main_schema_has 1 0])"
    by simp
  have h: "header_lines ''generator g\<newline>model A {\<newline>}'' = [''generator g'']"
    by (simp add: header_lines_def is_block_start_def eval_defs)
  have Tq: "join_nl (consolidated (join_nl (header_lines ''generator g\<newline>model A {\<newline>}''))
             [] [(''A'', ''model A {\<newline>}'')]) = T"
    unfolding h T_def by (simp add: consolidated_def section_entries_def sorted_keys_def)
  from merge_contents_unfold [OF m e l] obtain r
    where a: "merge_contents ''generator g\<newline>model A {\<newline>}'' [] = Inr r"
      and b: "written r = join_nl (consolidated
                 (join_nl (header_lines ''generator g\<newline>model A {\<newline>}'')) [] [(''A'', ''model A {\<newline>}'')])"
    by simp
  have m': "extract_models T = Inr [(''A'', ''model A {\<newline>}'')]"
    unfolding T_def by (simp add: extract_models_def eval_defs banner_def)
  have e': "extract_enums T = Inr []"
    unfolding T_def by (simp add: extract_enums_def eval_defs banner_def)
  have h': "header_lines T = [''generator g'', [], banner, ''// ENUMS'', banner, [],
                     [], banner, ''// MODELS'', banner, []]"
    unfolding T_def by (simp add: header_lines_def is_block_start_def eval_defs banner_def)
  have Tq': "join_nl (consolidated (join_nl (header_lines T)) [] [(''A'', ''model A {\<newline>}'')]) = T'"
    unfolding h' T'_def by (simp add: consolidated_def section_entries_def sorted_keys_def)
  from merge_contents_unfold [OF m' e' l] obtain r'
    where a': "merge_contents T [] = Inr r'"
      and b': "written r' = join_nl (consolidated (join_nl (header_lines T)) []
                 [(''A'', ''model A {\<newline>}'')])"
    by simp
  have ne: "T' \<noteq> T" unfolding T_def T'_def by (simp add: banner_def)
  have 1: "written r = T" using b Tq by (rule trans)
  have 2: "written r' = T'" using b' Tq' by (rule trans)
  have 3: "merge_contents (written r) [] = Inr r'" unfolding 1 by (rule a')
  have 4: "written r' \<noteq> written r" unfolding 1 2 by (rule ne)
  show ?thesis
    using a 1 3 2 4 unfolding T_def T'_def by (intro exI [of _ r] exI [of _ r'] conjI)
qed

text \<open>
  Claim C5, amended: every entry of a scan is a run of consecutive lines of the
  document, joined by newlines, that starts at an opening line whose second token is
  the name of the entry and holds no other opening line; the running balance is away
  from zero after every line of the run but the first and the last. Either the run
  closed normally (it has at least two lines and ends at balance zero, so that the text
  has as many opening as closing braces), or it was cut off by the next opening line or
  by the end of the document (and then it is one line, or ends at another balance).
\<close>
theorem emitted_block_is_closed_normally_or_cut_off:
  assumes "(extract, kw) \<in> {(extract_models, ''model ''), (extract_enums, ''enum '')}"
    and "extract doc = Inr blocks"
    and "(name, raw_text) \<in> set blocks"
  shows "\<exists>pre ls post. split_nl doc = pre @ ls @ post \<and> raw_text = join_nl ls
           \<and> block_span kw name ls
           \<and> (closed_normally ls \<and> count raw_text (CHR ''{'') = count raw_text (CHR ''}'')
               \<or> (post = [] \<or> opens kw (hd post)) \<and> cut_off ls)"
proof -
  from assms(1,2) have kw: "is_keyword kw" and ex: "extract_with_keyword kw doc = Inr blocks"
    by (auto simp: extract_models_keyword extract_enums_keyword)
  from extract_entries [OF kw ex assms(3)] obtain pre ls post
    where h: "split_nl doc = pre @ ls @ post" "raw_text = join_nl ls" "block_span kw name ls"
      "closed_normally ls \<or> (post = [] \<or> opens kw (hd post)) \<and> cut_off ls"
    by auto
  have "count raw_text (CHR ''{'') = count raw_text (CHR ''}'')" if "closed_normally ls"
    using that brace_delta_join_nl [of ls] h(2) by (simp add: closed_normally_def brace_delta_def)
  with h show ?thesis by blast
qed

theorem emitted_block_is_closed_normally_or_cut_off_witness:
  "\<exists>pre ls post. split_nl ''model A\<newline>{\<newline>}\<newline>model B {'' = pre @ ls @ post
     \<and> ''model A\<newline>{\<newline>}'' = join_nl ls
     \<and> block_span ''model '' ''A'' ls
     \<and> (closed_normally ls
           \<and> count ''model A\<newline>{\<newline>}'' (CHR ''{'') = count ''model A\<newline>{\<newline>}'' (CHR ''}'')
         \<or> (post = [] \<or> opens ''model '' (hd post)) \<and> cut_off ls)"
proof -
  have 1: "(extract_models, ''model '') \<in> {(extract_models, ''model ''), (extract_enums, ''enum '')}"
    by simp
  have 2: "extract_models ''model A\<newline>{\<newline>}\<newline>model B {''
             = Inr [(''A'', ''model A\<newline>{\<newline>}''), (''B'', ''model B {'')]"
    by (simp add: extract_models_def eval_defs)
  have 3: "(''A'', ''model A\<newline>{\<newline>}'') \<in> set [(''A'', ''model A\<newline>{\<newline>}''), (''B'', ''model B {'')]"
    by simp
  show ?thesis using emitted_block_is_closed_normally_or_cut_off [OF 1 2 3] .
qed

theorem emitted_blocks_unbalanced_counterexample:
  "extract_models ''model A {\<newline>  id Int'' = Inr [(''A'', ''model A {\<newline>  id Int'')]
   \<and> count ''model A {\<newline>  id Int'' (CHR ''{'') \<noteq> count ''model A {\<newline>  id Int'' (CHR ''}'')
   \<and> extract_models ''model B }\<newline>{'' = Inr [(''B'', ''model B }\<newline>{'')]
   \<and> balance [''model B }''] < 0
   \<and> extract_models ''model C\<newline>{\<newline>}'' = Inr [(''C'', ''model C\<newline>{\<newline>}'')]
   \<and> balance [''model C''] = 0"
  by (simp add: extract_models_def eval_defs)

text \<open>
  Claim C6: when an opening line of a document is followed to the end of the document
  by lines that open no block and never bring the depth to zero, the scan returns and
  maps the name of the opening line to the text of all lines from it to the end.
\<close>
theorem unterminated_block_is_emitted:
  assumes "(extract, kw) \<in> {(extract_models, ''model ''), (extract_enums, ''enum '')}"
    and "split_nl doc = pre @ line # rest"
    and "opens kw line"
    and "\<forall>l\<in>set rest. \<not> opens kw l"
    and "\<forall>k\<in>{1..length rest}. balance (line # take k rest) \<noteq> 0"
  shows "\<exists>name blocks. item (split_ws (strip line)) 1 = Inr name
           \<and> extract doc = Inr blocks
           \<and> map_of blocks name = Some (join_nl (line # rest))"
proof -
  from assms(1) have "is_keyword kw" and "extract = extract_with_keyword kw"
    by (auto simp: extract_models_keyword extract_enums_keyword)
  with assms(2-) show ?thesis using extract_cut_off by blast
qed

theorem unterminated_block_is_emitted_witness:
  "(\<exists>name blocks. item (split_ws (strip ''model A {'')) 1 = Inr name
      \<and> extract_models ''generator x\<newline>model A {\<newline>  id Int'' = Inr blocks
      \<and> map_of blocks name = Some (join_nl (''model A {'' # [''  id Int''])))
   \<and> (\<exists>name blocks. item (split_ws (strip ''enum E {}'')) 1 = Inr name
      \<and> extract_enums ''enum E {}'' = Inr blocks
      \<and> map_of blocks name = Some (join_nl (''enum E {}'' # [])))"
proof -
  have m0: "(extract_models, ''model '') \<in> {(extract_models, ''model ''), (extract_enums, ''enum '')}"
    by simp
  have m1: "split_nl ''generator x\<newline>model A {\<newline>  id Int'' = [''generator x''] @ ''model A {'' # [''  id Int'']"
    by simp
  have m2: "opens ''model '' ''model A {''" by (simp add: eval_defs)
  have m3: "\<forall>l\<in>set [''  id Int'']. \<not> opens ''model '' l" by (simp add: eval_defs)
  have m4: "\<forall>k\<in>{1..length [''  id Int'']}. balance (''model A {'' # take k [''  id Int'']) \<noteq> 0"
    by (simp add: eval_defs)
  have e0: "(extract_enums, ''enum '') \<in> {(extract_models, ''model ''), (extract_enums, ''enum '')}"
    by simp
  have e1: "split_nl ''enum E {}'' = [] @ ''enum E {}'' # []" by simp
  have e2: "opens ''enum '' ''enum E {}''" by (simp add: eval_defs)
  have e3: "\<forall>l\<in>set []. \<not> opens ''enum '' l" by simp
  have e4: "\<forall>k\<in>{1..length ([]::string list)}. balance (''enum E {}'' # take k []) \<noteq> 0" by simp
  show ?thesis
    using unterminated_block_is_emitted [OF m0 m1 m2 m3 m4]
      unterminated_block_is_emitted [OF e0 e1 e2 e3 e4]
    by (rule conjI)
qed

text \<open>
  Claim C7, amended: after any lines \<open>pre\<close>, an opening line and at least one further
  line, none of them opening, the last of which is the first to bring the depth to
  zero, store under the name of the opening line exactly the text of these lines, and
  leave the scanner outside a block. The depth after the opening line itself plays no
  part: it may be zero.
\<close>
theorem block_closes_at_first_later_line_of_depth_zero:
  assumes "(body, kw) \<in> {(models_body, ''model ''), (enums_body, ''enum '')}"
    and "run_loop body pre start_state
           = Inr (blocks, current, current_content, in_block, brace_count)"
    and "opens kw line"
    and "rest \<noteq> []"
    and "\<forall>l\<in>set rest. \<not> opens kw l"
    and "\<forall>k\<in>{1..<length rest}. balance (line # take k rest) \<noteq> 0"
    and "balance (line # rest) = 0"
  shows "\<exists>name. item (split_ws (strip line)) 1 = Inr name
         \<and> run_loop body (pre @ line # rest) start_state
             = Inr (AList.update name (join_nl (line # rest))
                      (flush blocks current current_content),
                    None, [], False, 0)"
proof -
  from assms(1) have "is_keyword kw" and "body = keyword_body kw"
    by (auto simp: models_body_eq enums_body_eq)
  with assms(2-) show ?thesis using keyword_block_closed by blast
qed

theorem block_closes_at_first_later_line_of_depth_zero_witness:
  "(\<exists>name. item (split_ws (strip ''model A {'')) 1 = Inr name
     \<and> run_loop models_body ([''generator x''] @ ''model A {'' # [''  id Int'', ''}''])
          start_state
        = Inr (AList.update name (join_nl (''model A {'' # [''  id Int'', ''}'']))
                 (flush [] None []),
               None, [], False, 0))
   \<and> (\<exists>name. item (split_ws (strip ''enum E { X }'')) 1 = Inr name
     \<and> run_loop enums_body ([] @ ''enum E { X }'' # [''// next''])
          start_state
        = Inr (AList.update name (join_nl (''enum E { X }'' # [''// next'']))
                 (flush [] None []),
               None, [], False, 0))"
proof -
  have m0: "(models_body, ''model '') \<in> {(models_body, ''model ''), (enums_body, ''enum '')}"
    by simp
  have m1: "run_loop models_body [''generator x''] start_state = Inr ([], None, [], False, 0)"
    by (simp add: eval_defs)
  have m2: "opens ''model '' ''model A {''" by (simp add: eval_defs)
  have m3: "[''  id Int'', ''}''] \<noteq> []" by simp
  have m4: "\<forall>l\<in>set [''  id Int'', ''}'']. \<not> opens ''model '' l" by (simp add: eval_defs)
  have m5: "\<forall>k\<in>{1..<length [''  id Int'', ''}'']}.
             balance (''model A {'' # take k [''  id Int'', ''}'']) \<noteq> 0"
    by (simp add: eval_defs)
  have m6: "balance (''model A {'' # [''  id Int'', ''}'']) = 0" by (simp add: eval_defs)
  have e0: "(enums_body, ''enum '') \<in> {(models_body, ''model ''), (enums_body, ''enum '')}"
    by simp
  have e1: "run_loop enums_body [] start_state = Inr ([], None, [], False, 0)"
    by (simp add: eval_defs)
  have e2: "opens ''enum '' ''enum E { X }''" by (simp add: eval_defs)
  have e3: "[''// next''] \<noteq> []" by simp
  have e4: "\<forall>l\<in>set [''// next'']. \<not> opens ''enum '' l" by (simp add: eval_defs)
  have e5: "\<forall>k\<in>{1..<length [''// next'']}.
             balance (''enum E { X }'' # take k [''// next'']) \<noteq> 0"
    by simp
  have e6: "balance (''enum E { X }'' # [''// next'']) = 0" by (simp add: eval_defs)
  show ?thesis
    using block_closes_at_first_later_line_of_depth_zero [OF m0 m1 m2 m3 m4 m5 m6]
      block_closes_at_first_later_line_of_depth_zero [OF e0 e1 e2 e3 e4 e5 e6]
    by (rule conjI)
qed

theorem one_line_block_takes_next_line_counterexample:
  "brace_delta ''model A { id Int }'' = 0
   \<and> extract_models ''model A { id Int }\<newline>// note\<newline>generator x''
       = Inr [(''A'', ''model A { id Int }\<newline>// note'')]
   \<and> extract_models ''model A { id Int }\<newline>enum E {\<newline>  X\<newline>}''
       = Inr [(''A'', ''model A { id Int }\<newline>enum E {\<newline>  X\<newline>}'')]"
  by (simp add: extract_models_def eval_defs)

text \<open>
  Claim C8, amended: a line whose stripped text starts with \<^verbatim>\<open>model\<close> and a space, or
  with \<^verbatim>\<open>enum\<close> and a space, has a second token, and the token is not empty; the two
  scans of any text return; and the merge returns, having printed the count line of
  every additional document that exists.
\<close>
theorem opening_line_always_has_a_name_and_scanning_never_fails:
  assumes "opens ''model '' line \<or> opens ''enum '' line"
  shows "(\<exists>name. item (split_ws (strip line)) 1 = Inr name \<and> name \<noteq> [])
       \<and> (\<exists>models enums. extract_models schema_content = Inr models
             \<and> extract_enums schema_content = Inr enums
             \<and> (\<exists>r out1 out2.
                   merge_contents main_content (before @ (path, Some schema_content) # after) = Inr r
                 \<and> printed r = out1 @ File_counts (path_name path) (length models) (length enums) # out2))"
proof -
  have a: "\<exists>name. item (split_ws (strip line)) 1 = Inr name \<and> name \<noteq> []"
    using assms opens_item [OF is_keyword_model] opens_item [OF is_keyword_enum] by blast
  obtain sm where sm: "extract_models schema_content = Inr sm"
    using extract_models_total [of schema_content] by (elim exE)
  obtain se where se: "extract_enums schema_content = Inr se"
    using extract_enums_total [of schema_content] by (elim exE)
  obtain rb where rb: "merge_contents main_content before = Inr rb"
    using merge_contents_total [of main_content before] by (elim exE)
  from merge_contents_state [OF rb] obtain pm pe out
    where p: "extract_models main_content = Inr pm" "extract_enums main_content = Inr pe"
      "run_loop merge_body before (pm, pe, [Main_schema_has (length pm) (length pe)])
         = Inr (all_models_end rb, all_enums_end rb, out)"
    by (elim exE conjE)
  from merge_contents_found [OF p sm se, of path after] obtain r evs out2
    where h: "merge_contents main_content (before @ (path, Some schema_content) # after) = Inr r"
      "printed r = out @ File_counts (path_name path) (length sm) (length se) # evs @ out2"
    by (elim exE conjE)
  have b: "\<exists>r out1 out2.
             merge_contents main_content (before @ (path, Some schema_content) # after) = Inr r
           \<and> printed r = out1 @ File_counts (path_name path) (length sm) (length se) # out2"
    by (intro exI [of _ r] exI [of _ out] exI [of _ "evs @ out2"] conjI h)
  show ?thesis
    by (intro conjI a exI [of _ sm] exI [of _ se] sm se b)
qed

theorem opening_line_always_has_a_name_and_scanning_never_fails_witness:
  "(\<exists>name. item (split_ws (strip ''model {'')) 1 = Inr name \<and> name \<noteq> [])
   \<and> (\<exists>models enums. extract_models ''model {\<newline>}'' = Inr models
         \<and> extract_enums ''model {\<newline>}'' = Inr enums
         \<and> (\<exists>r out1 out2.
               merge_contents ''generator g'' ([] @ (''./prisma/a.prisma'', Some ''model {\<newline>}'') # []) = Inr r
             \<and> printed r = out1 @ File_counts (path_name ''./prisma/a.prisma'') (length models) (length enums) # out2))"
proof -
  have 1: "opens ''model '' ''model {'' \<or> opens ''enum '' ''model {''" by (simp add: eval_defs)
  show ?thesis
    using opening_line_always_has_a_name_and_scanning_never_fails [OF 1] .
qed

theorem header_without_identifier_is_scanned_counterexample:
  "extract_models ''model {\<newline>}'' = Inr [(''{'', ''model {\<newline>}'')]
   \<and> extract_enums ''enum {\<newline>}'' = Inr [(''{'', ''enum {\<newline>}'')]
   \<and> extract_models ''model\<newline>{\<newline>}'' = Inr []"
  by (simp add: extract_models_def extract_enums_def eval_defs)

text \<open>
  Claim C9, amended: for both scanners, when after any lines \<open>pre\<close> an opening line is
  followed by lines that open no block and keep the depth away from zero, and then by
  a second opening line, the first block is stored under its name with exactly the
  text of its opening line and the lines before the second one, and the scanner is
  inside a new block made of the second opening line. The scan of the whole document
  returns. Its result holds the first block with exactly this text under its name
  provided that no opening line from the second one on carries the same name. If one
  does, the result holds under the name a text that starts at the last opening line
  carrying it and goes on with lines that follow this line: the block stored early
  has been replaced.
\<close>
theorem opening_line_inside_open_block_stores_it:
  assumes "(extract, body, kw) \<in>
       {(extract_models, models_body, ''model ''), (extract_enums, enums_body, ''enum '')}"
    and "split_nl doc = pre @ line1 # mid @ line2 # post"
    and "run_loop body pre start_state
           = Inr (blocks, current, current_content, in_block, brace_count)"
    and "opens kw line1"
    and "\<forall>l\<in>set mid. \<not> opens kw l"
    and "\<forall>k\<in>{1..length mid}. balance (line1 # take k mid) \<noteq> 0"
    and "opens kw line2"
  shows "\<exists>name1 name2 result.
           item (split_ws (strip line1)) 1 = Inr name1
         \<and> item (split_ws (strip line2)) 1 = Inr name2
         \<and> run_loop body (pre @ line1 # mid @ [line2]) start_state
             = Inr (AList.update name1 (join_nl (line1 # mid))
                      (flush blocks current current_content),
                    Some name2, [line2], True, brace_delta line2)
         \<and> extract doc = Inr result
         \<and> ((\<forall>l\<in>set (line2 # post). opens kw l \<longrightarrow> item (split_ws (strip l)) 1 \<noteq> Inr name1)
              \<longrightarrow> map_of result name1 = Some (join_nl (line1 # mid)))
         \<and> (\<forall>between last_line rest.
               line2 # post = between @ last_line # rest
               \<and> opens kw last_line \<and> item (split_ws (strip last_line)) 1 = Inr name1
               \<and> (\<forall>l\<in>set rest. opens kw l \<longrightarrow> item (split_ws (strip l)) 1 \<noteq> Inr name1)
               \<longrightarrow> (\<exists>k\<le>length rest.
                      map_of result name1 = Some (join_nl (last_line # take k rest))))"
proof -
  from assms(1) have kw: "is_keyword kw" and body: "body = keyword_body kw"
    and ex: "extract = extract_with_keyword kw"
    by (auto simp: models_body_eq enums_body_eq extract_models_keyword extract_enums_keyword)
  from keyword_block_reopened [OF kw assms(3) [unfolded body] assms(4-7)]
  obtain name1 name2 where n:
    "item (split_ws (strip line1)) 1 = Inr name1"
    "item (split_ws (strip line2)) 1 = Inr name2"
    "run_loop (keyword_body kw) (pre @ line1 # mid @ [line2]) start_state
       = Inr (AList.update name1 (join_nl (line1 # mid)) (flush blocks current current_content),
              Some name2, [line2], True, brace_delta line2)"
    by (elim exE conjE)
  obtain result where r: "extract_with_keyword kw doc = Inr result"
    using extract_with_keyword_total [OF kw, of doc] by (elim exE)
  have i: "(\<forall>l\<in>set (line2 # post). opens kw l \<longrightarrow> item (split_ws (strip l)) 1 \<noteq> Inr name1)
              \<longrightarrow> map_of result name1 = Some (join_nl (line1 # mid))"
  proof
    assume "\<forall>l\<in>set (line2 # post). opens kw l \<longrightarrow> item (split_ws (strip l)) 1 \<noteq> Inr name1"
    from keyword_block_reopened_result [OF kw assms(2,4-7) n(1) this] r
    show "map_of result name1 = Some (join_nl (line1 # mid))" by auto
  qed
  have j: "\<forall>between last_line rest.
               line2 # post = between @ last_line # rest
               \<and> opens kw last_line \<and> item (split_ws (strip last_line)) 1 = Inr name1
               \<and> (\<forall>l\<in>set rest. opens kw l \<longrightarrow> item (split_ws (strip l)) 1 \<noteq> Inr name1)
               \<longrightarrow> (\<exists>k\<le>length rest.
                      map_of result name1 = Some (join_nl (last_line # take k rest)))"
  proof (intro allI impI, elim conjE)
    fix between last_line rest
    assume s: "line2 # post = between @ last_line # rest"
      and o: "opens kw last_line" and m: "item (split_ws (strip last_line)) 1 = Inr name1"
      and l: "\<forall>l\<in>set rest. opens kw l \<longrightarrow> item (split_ws (strip l)) 1 \<noteq> Inr name1"
    have "split_nl doc = pre @ line1 # mid @ (line2 # post)" using assms(2) by simp
    then have d: "split_nl doc = (pre @ line1 # mid @ between) @ last_line # rest"
      unfolding s by simp
    from kw d o m l r
    show "\<exists>k\<le>length rest. map_of result name1 = Some (join_nl (last_line # take k rest))"
      by (rule last_opening_line_wins)
  qed
  show ?thesis
    unfolding body ex
    by (intro exI [of _ name1] exI [of _ name2] exI [of _ result] conjI n r i j)
qed

theorem opening_line_inside_open_block_stores_it_witness:
  "(\<exists>name1 name2 result.
       item (split_ws (strip ''model A {'')) 1 = Inr name1
     \<and> item (split_ws (strip ''  model B {'')) 1 = Inr name2
     \<and> run_loop models_body ([''generator x''] @ ''model A {'' # [''  id Int''] @ [''  model B {''])
          start_state
        = Inr (AList.update name1 (join_nl (''model A {'' # [''  id Int'']))
                 (flush [] None []),
               Some name2, [''  model B {''], True, brace_delta ''  model B {'')
     \<and> extract_models ''generator x\<newline>model A {\<newline>  id Int\<newline>  model B {\<newline>}'' = Inr result
     \<and> map_of result name1 = Some (join_nl (''model A {'' # [''  id Int''])))
   \<and> (\<exists>name1 name2 result.
       item (split_ws (strip ''enum E {'')) 1 = Inr name1
     \<and> item (split_ws (strip ''enum F {'')) 1 = Inr name2
     \<and> run_loop enums_body ([] @ ''enum E {'' # [] @ [''enum F {'']) start_state
        = Inr (AList.update name1 (join_nl (''enum E {'' # [])) (flush [] None []),
               Some name2, [''enum F {''], True, brace_delta ''enum F {'')
     \<and> extract_enums ''enum E {\<newline>enum F {'' = Inr result
     \<and> map_of result name1 = Some (join_nl (''enum E {'' # [])))
   \<and> (\<exists>name1 name2 result k.
       item (split_ws (strip ''model A {'')) 1 = Inr name1
     \<and> item (split_ws (strip ''model A {'')) 1 = Inr name2
     \<and> run_loop models_body ([] @ ''model A {'' # [''  x Int''] @ [''model A {'']) start_state
        = Inr (AList.update name1 (join_nl (''model A {'' # [''  x Int''])) (flush [] None []),
               Some name2, [''model A {''], True, brace_delta ''model A {'')
     \<and> extract_models ''model A {\<newline>  x Int\<newline>model A {\<newline>  y Int\<newline>}'' = Inr result
     \<and> k \<le> length [''  y Int'', ''}'']
     \<and> map_of result name1 = Some (join_nl (''model A {'' # take k [''  y Int'', ''}''])))"
proof -
  have m0: "(extract_models, models_body, ''model '') \<in>
       {(extract_models, models_body, ''model ''), (extract_enums, enums_body, ''enum '')}"
    by simp
  have m1: "split_nl ''generator x\<newline>model A {\<newline>  id Int\<newline>  model B {\<newline>}''
              = [''generator x''] @ ''model A {'' # [''  id Int''] @ ''  model B {'' # [''}'']"
    by simp
  have m2: "run_loop models_body [''generator x''] start_state = Inr ([], None, [], False, 0)"
    by (simp add: eval_defs)
  have m3: "opens ''model '' ''model A {''" by (simp add: eval_defs)
  have m4: "\<forall>l\<in>set [''  id Int'']. \<not> opens ''model '' l" by (simp add: eval_defs)
  have m5: "\<forall>k\<in>{1..length [''  id Int'']}. balance (''model A {'' # take k [''  id Int'']) \<noteq> 0"
    by (simp add: eval_defs)
  have m6: "opens ''model '' ''  model B {''" by (simp add: eval_defs)
  have mA: "item (split_ws (strip ''model A {'')) 1 = Inr ''A''" by (simp add: eval_defs)
  have m7: "\<forall>l\<in>set (''  model B {'' # [''}'']).
              opens ''model '' l \<longrightarrow> item (split_ws (strip l)) 1 \<noteq> Inr ''A''"
    by (simp add: eval_defs)
  from opening_line_inside_open_block_stores_it [OF m0 m1 m2 m3 m4 m5 m6]
  obtain name1 name2 result where a:
    "item (split_ws (strip ''model A {'')) 1 = Inr name1"
    "item (split_ws (strip ''  model B {'')) 1 = Inr name2"
    "run_loop models_body ([''generator x''] @ ''model A {'' # [''  id Int''] @ [''  model B {''])
          start_state
        = Inr (AList.update name1 (join_nl (''model A {'' # [''  id Int'']))
                 (flush [] None []),
               Some name2, [''  model B {''], True, brace_delta ''  model B {'')"
    "extract_models ''generator x\<newline>model A {\<newline>  id Int\<newline>  model B {\<newline>}'' = Inr result"
    "(\<forall>l\<in>set (''  model B {'' # [''}'']).
         opens ''model '' l \<longrightarrow> item (split_ws (strip l)) 1 \<noteq> Inr name1)
      \<longrightarrow> map_of result name1 = Some (join_nl (''model A {'' # [''  id Int'']))"
    by (elim exE conjE)
  from a(1) mA have "name1 = ''A''" by simp
  with a(5) m7 have a5: "map_of result name1 = Some (join_nl (''model A {'' # [''  id Int'']))"
    by blast
  have M: "\<exists>name1 name2 result.
       item (split_ws (strip ''model A {'')) 1 = Inr name1
     \<and> item (split_ws (strip ''  model B {'')) 1 = Inr name2
     \<and> run_loop models_body ([''generator x''] @ ''model A {'' # [''  id Int''] @ [''  model B {''])
          start_state
        = Inr (AList.update name1 (join_nl (''model A {'' # [''  id Int'']))
                 (flush [] None []),
               Some name2, [''  model B {''], True, brace_delta ''  model B {'')
     \<and> extract_models ''generator x\<newline>model A {\<newline>  id Int\<newline>  model B {\<newline>}'' = Inr result
     \<and> map_of result name1 = Some (join_nl (''model A {'' # [''  id Int'']))"
    by (intro exI [of _ name1] exI [of _ name2] exI [of _ result] conjI a(1-4) a5)
  have e0: "(extract_enums, enums_body, ''enum '') \<in>
       {(extract_models, models_body, ''model ''), (extract_enums, enums_body, ''enum '')}"
    by simp
  have e1: "split_nl ''enum E {\<newline>enum F {'' = [] @ ''enum E {'' # [] @ ''enum F {'' # []"
    by simp
  have e2: "run_loop enums_body [] start_state = Inr ([], None, [], False, 0)"
    by (simp add: eval_defs)
  have e3: "opens ''enum '' ''enum E {''" by (simp add: eval_defs)
  have e4: "\<forall>l\<in>set []. \<not> opens ''enum '' l" by simp
  have e5: "\<forall>k\<in>{1..length ([]::string list)}. balance (''enum E {'' # take k []) \<noteq> 0" by simp
  have e6: "opens ''enum '' ''enum F {''" by (simp add: eval_defs)
  have eE: "item (split_ws (strip ''enum E {'')) 1 = Inr ''E''" by (simp add: eval_defs)
  have e7: "\<forall>l\<in>set (''enum F {'' # []).
              opens ''enum '' l \<longrightarrow> item (split_ws (strip l)) 1 \<noteq> Inr ''E''"
    by (simp add: eval_defs)
  from opening_line_inside_open_block_stores_it [OF e0 e1 e2 e3 e4 e5 e6]
  obtain name1 name2 result where b:
    "item (split_ws (strip ''enum E {'')) 1 = Inr name1"
    "item (split_ws (strip ''enum F {'')) 1 = Inr name2"
    "run_loop enums_body ([] @ ''enum E {'' # [] @ [''enum F {'']) start_state
        = Inr (AList.update name1 (join_nl (''enum E {'' # [])) (flush [] None []),
               Some name2, [''enum F {''], True, brace_delta ''enum F {'')"
    "extract_enums ''enum E {\<newline>enum F {'' = Inr result"
    "(\<forall>l\<in>set (''enum F {'' # []).
         opens ''enum '' l \<longrightarrow> item (split_ws (strip l)) 1 \<noteq> Inr name1)
      \<longrightarrow> map_of result name1 = Some (join_nl (''enum E {'' # []))"
    by (elim exE conjE)
  from b(1) eE have "name1 = ''E''" by simp
  with b(5) e7 have b5: "map_of result name1 = Some (join_nl (''enum E {'' # []))"
    by blast
  have E: "\<exists>name1 name2 result.
       item (split_ws (strip ''enum E {'')) 1 = Inr name1
     \<and> item (split_ws (strip ''enum F {'')) 1 = Inr name2
     \<and> run_loop enums_body ([] @ ''enum E {'' # [] @ [''enum F {'']) start_state
        = Inr (AList.update name1 (join_nl (''enum E {'' # [])) (flush [] None []),
               Some name2, [''enum F {''], True, brace_delta ''enum F {'')
     \<and> extract_enums ''enum E {\<newline>enum F {'' = Inr result
     \<and> map_of result name1 = Some (join_nl (''enum E {'' # []))"
    by (intro exI [of _ name1] exI [of _ name2] exI [of _ result] conjI b(1-4) b5)
  have r1: "split_nl ''model A {\<newline>  x Int\<newline>model A {\<newline>  y Int\<newline>}''
              = [] @ ''model A {'' # [''  x Int''] @ ''model A {'' # [''  y Int'', ''}'']"
    by simp
  have r2: "run_loop models_body [] start_state = Inr ([], None, [], False, 0)"
    by (simp add: eval_defs)
  have r4: "\<forall>l\<in>set [''  x Int'']. \<not> opens ''model '' l" by (simp add: eval_defs)
  have r5: "\<forall>k\<in>{1..length [''  x Int'']}. balance (''model A {'' # take k [''  x Int'']) \<noteq> 0"
    by (simp add: eval_defs)
  have r7: "\<forall>l\<in>set [''  y Int'', ''}'']. opens ''model '' l
              \<longrightarrow> item (split_ws (strip l)) 1 \<noteq> Inr ''A''"
    by (simp add: eval_defs)
  from opening_line_inside_open_block_stores_it [OF m0 r1 r2 m3 r4 r5 m3]
  obtain name1 name2 result where c:
    "item (split_ws (strip ''model A {'')) 1 = Inr name1"
    "item (split_ws (strip ''model A {'')) 1 = Inr name2"
    "run_loop models_body ([] @ ''model A {'' # [''  x Int''] @ [''model A {'']) start_state
        = Inr (AList.update name1 (join_nl (''model A {'' # [''  x Int''])) (flush [] None []),
               Some name2, [''model A {''], True, brace_delta ''model A {'')"
    "extract_models ''model A {\<newline>  x Int\<newline>model A {\<newline>  y Int\<newline>}'' = Inr result"
    "\<forall>between last_line rest.
        ''model A {'' # [''  y Int'', ''}''] = between @ last_line # rest
        \<and> opens ''model '' last_line \<and> item (split_ws (strip last_line)) 1 = Inr name1
        \<and> (\<forall>l\<in>set rest. opens ''model '' l \<longrightarrow> item (split_ws (strip l)) 1 \<noteq> Inr name1)
        \<longrightarrow> (\<exists>k\<le>length rest.
               map_of result name1 = Some (join_nl (last_line # take k rest)))"
    by (elim exE conjE)
  from c(1) mA have n1: "name1 = ''A''" by simp
  have "''model A {'' # [''  y Int'', ''}''] = [] @ ''model A {'' # [''  y Int'', ''}'']
        \<and> opens ''model '' ''model A {'' \<and> item (split_ws (strip ''model A {'')) 1 = Inr name1
        \<and> (\<forall>l\<in>set [''  y Int'', ''}'']. opens ''model '' l
             \<longrightarrow> item (split_ws (strip l)) 1 \<noteq> Inr name1)"
    using m3 c(1) r7 unfolding n1 by (intro conjI) simp_all
  with c(5) have "\<exists>k\<le>length [''  y Int'', ''}''].
      map_of result name1 = Some (join_nl (''model A {'' # take k [''  y Int'', ''}'']))"
    by blast
  then obtain k where k: "k \<le> length [''  y Int'', ''}'']"
    "map_of result name1 = Some (join_nl (''model A {'' # take k [''  y Int'', ''}'']))"
    by (elim exE conjE)
  have R: "\<exists>name1 name2 result k.
       item (split_ws (strip ''model A {'')) 1 = Inr name1
     \<and> item (split_ws (strip ''model A {'')) 1 = Inr name2
     \<and> run_loop models_body ([] @ ''model A {'' # [''  x Int''] @ [''model A {'']) start_state
        = Inr (AList.update name1 (join_nl (''model A {'' # [''  x Int''])) (flush [] None []),
               Some name2, [''model A {''], True, brace_delta ''model A {'')
     \<and> extract_models ''model A {\<newline>  x Int\<newline>model A {\<newline>  y Int\<newline>}'' = Inr result
     \<and> k \<le> length [''  y Int'', ''}'']
     \<and> map_of result name1 = Some (join_nl (''model A {'' # take k [''  y Int'', ''}'']))"
    by (intro exI [of _ name1] exI [of _ name2] exI [of _ result] exI [of _ k] conjI c(1-4) k)
  from M E R show ?thesis by (intro conjI)
qed

theorem reopened_block_of_same_name_is_replaced_counterexample:
  "run_loop models_body [''model A {'', ''  x Int'', ''model A {''] start_state
     = Inr ([(''A'', ''model A {\<newline>  x Int'')], Some ''A'', [''model A {''], True, 1)
   \<and> extract_models ''model A {\<newline>  x Int\<newline>model A {\<newline>  y Int\<newline>}''
       = Inr [(''A'', ''model A {\<newline>  y Int\<newline>}'')]
   \<and> extract_enums ''enum E {\<newline>  X\<newline>enum E {\<newline>  Y\<newline>}''
       = Inr [(''E'', ''enum E {\<newline>  Y\<newline>}'')]"
  by (simp add: extract_models_def extract_enums_def eval_defs)

text \<open>
  Claim C10: \<open>extract_enums\<close> is \<open>extract_models\<close> with the keyword \<^verbatim>\<open>enum\<close> in place of
  \<^verbatim>\<open>model\<close>. Both are the keyword scanner at their keyword, loop body by loop body
  and text by text.
\<close>
theorem extract_enums_is_extract_models_at_enum_keyword:
  "extract_enums schema_content = extract_with_keyword ''enum '' schema_content
   \<and> extract_models schema_content = extract_with_keyword ''model '' schema_content
   \<and> enums_body = keyword_body ''enum '' \<and> models_body = keyword_body ''model ''"
  by (simp add: extract_models_keyword extract_enums_keyword models_body_eq enums_body_eq)

end
